theory Spec2Isabelle
  imports Main "HOL-Library.Word" "HOL-Library.Char_ord" "HOL-Library.List_Lexorder"
begin

section \<open>The useWeft client (client/useweft-0.2.0.js)\<close>

text \<open>
  The client is one closure over a handful of variables, driven by browser events: the
  script's own evaluation, DOMContentLoaded, \<open>rehash()\<close> calls, the cloak timer, load and
  error events of link elements, and the settling of the promises of \<open>fetch\<close> and of
  \<open>crypto.subtle.digest\<close>. The model is a record of the closure's variables, the
  storage areas and the document, one function per source function, and one event per
  browser callback.
\<close>

subsection \<open>Strings and JSON values\<close>

text \<open>
  A JavaScript string is a sequence of UTF-16 code units. Class names and the version
  token, which the client sorts and encodes, are modelled as such (\<open>utf16\<close>); they are
  ordered lexicographically by code unit, as the default \<open>Array.prototype.sort\<close> orders
  strings. Urls, storage keys, bundle ids and style texts, which the client only
  concatenates and compares, are modelled by \<open>string\<close>.
\<close>

type_synonym utf16 = "16 word list"

definition ascii :: "string \<Rightarrow> utf16" where
  "ascii str = map (\<lambda>c. of_nat (of_char c)) str"

text \<open>\<open>Array.prototype.join(",")\<close> on strings.\<close>

fun join :: "utf16 list \<Rightarrow> utf16" where
  "join [] = []"
| "join [x] = x"
| "join (x # y # ys) = x @ ascii '','' @ join (y # ys)"

text \<open>
  What \<open>r.json()\<close> can put in the field \<open>v\<close> of the version response: nothing
  (\<open>undefined\<close>), \<open>null\<close>, a boolean, a number, a string, an array or an object. A number
  is kept as the string \<open>Number.prototype.toString\<close> gives for it, which is \<open>0\<close> for both
  zeros and for no other number.
\<close>

datatype jsval =
    JUndefined
  | JNull
  | JBool bool
  | JNum utf16
  | JStr utf16
  | JArr "jsval list"
  | JObj

text \<open>A value in a condition (\<open>ToBoolean\<close>).\<close>

fun js_truthy :: "jsval \<Rightarrow> bool" where
  "js_truthy JUndefined = False"
| "js_truthy JNull = False"
| "js_truthy (JBool b) = b"
| "js_truthy (JNum n) = (n \<noteq> ascii ''0'')"
| "js_truthy (JStr x) = (x \<noteq> [])"
| "js_truthy (JArr xs) = True"
| "js_truthy JObj = True"

text \<open>
  A value as the left operand of \<open>+\<close> with a string (\<open>ToString\<close> of its primitive). An
  array joins its elements with a comma, \<open>undefined\<close> and \<open>null\<close> among them giving the
  empty string; a plain object gives \<open>[object Object]\<close>. An object with a field named
  \<open>toString\<close> or \<open>valueOf\<close> makes the conversion throw: the promise of \<open>computeHash\<close> is
  then rejected.
\<close>

fun js_toString :: "jsval \<Rightarrow> utf16" where
  "js_toString JUndefined = ascii ''undefined''"
| "js_toString JNull = ascii ''null''"
| "js_toString (JBool b) = (if b then ascii ''true'' else ascii ''false'')"
| "js_toString (JNum n) = n"
| "js_toString (JStr x) = x"
| "js_toString (JArr xs) =
     join (map (\<lambda>x. if x = JUndefined \<or> x = JNull then [] else js_toString x) xs)"
| "js_toString JObj = ascii ''[object Object]''"

subsection \<open>Scan (lines 162-170)\<close>

text \<open>
  \<open>set[cl[j]] = 1\<close> on an object without prototype: the key is added unless it is there
  already. The list holds the keys in the order they were added; \<open>Object.keys\<close> lists
  those that are array indices first, and its result is sorted at once. The argument of
  \<open>scan\<close> is the \<open>classList\<close> of every element matched by \<open>querySelectorAll("[class]")\<close>,
  in document order.
\<close>

definition set_key :: "utf16 list \<Rightarrow> utf16 \<Rightarrow> utf16 list" where
  "set_key ks k = (if k \<in> set ks then ks else ks @ [k])"

definition scan :: "utf16 list list \<Rightarrow> utf16 list" where
  "scan els = sort (foldl (\<lambda>ks cl. foldl set_key ks cl) [] els)"

subsection \<open>Hash (lines 174-183)\<close>

type_synonym byte = "8 word"

definition hexdigit :: "nat \<Rightarrow> char" where
  "hexdigit d = ''0123456789abcdef'' ! d"

text \<open>\<open>Number.prototype.toString(16)\<close> on a non-negative integer: no leading zero.\<close>

fun toString16 :: "nat \<Rightarrow> string" where
  "toString16 n = (if n < 16 then [hexdigit n] else toString16 (n div 16) @ [hexdigit (n mod 16)])"

declare toString16.simps [simp del]

text \<open>The loop \<open>h += (b[i] < 16 ? "0" : "") + b[i].toString(16)\<close> over the digest's bytes.\<close>

definition hex_loop :: "byte list \<Rightarrow> string" where
  "hex_loop b = foldl (\<lambda>h x. h @ (if unat x < 16 then ''0'' else '''') @ toString16 (unat x)) '''' b"

text \<open>
  \<open>new TextEncoder().encode(input)\<close>: the string is read as scalar values, a high
  surrogate followed by a low one giving one code point and any other surrogate U+FFFD,
  and each scalar value is written in UTF-8.
\<close>

definition high_surrogate :: "16 word \<Rightarrow> bool" where
  "high_surrogate u = (0xD800 \<le> u \<and> u < 0xDC00)"

definition low_surrogate :: "16 word \<Rightarrow> bool" where
  "low_surrogate u = (0xDC00 \<le> u \<and> u < 0xE000)"

definition lone :: "16 word \<Rightarrow> nat" where
  "lone u = (if high_surrogate u \<or> low_surrogate u then 0xFFFD else unat u)"

fun scalars :: "utf16 \<Rightarrow> nat list" where
  "scalars [] = []"
| "scalars [u] = [lone u]"
| "scalars (u # l # us) =
     (if high_surrogate u \<and> low_surrogate l
      then (0x10000 + (unat u - 0xD800) * 0x400 + (unat l - 0xDC00)) # scalars us
      else lone u # scalars (l # us))"

definition utf8 :: "nat \<Rightarrow> byte list" where
  "utf8 c =
     (if c < 0x80 then [of_nat c]
      else if c < 0x800 then [of_nat (0xC0 + c div 0x40), of_nat (0x80 + c mod 0x40)]
      else if c < 0x10000
      then [of_nat (0xE0 + c div 0x1000), of_nat (0x80 + c div 0x40 mod 0x40),
            of_nat (0x80 + c mod 0x40)]
      else [of_nat (0xF0 + c div 0x40000), of_nat (0x80 + c div 0x1000 mod 0x40),
            of_nat (0x80 + c div 0x40 mod 0x40), of_nat (0x80 + c mod 0x40)])"

definition encode :: "utf16 \<Rightarrow> byte list" where
  "encode str = concat (map utf8 (scalars str))"

text \<open>
  \<open>crypto.subtle.digest("SHA-256", _)\<close> is the platform's primitive and not code of the
  client: \<open>computeHash\<close> takes it as the parameter \<open>digest\<close>. The value is what the
  returned promise resolves to.
\<close>

definition computeHash :: "(byte list \<Rightarrow> byte list) \<Rightarrow> jsval \<Rightarrow> utf16 list \<Rightarrow> string" where
  "computeHash digest ver sortedC =
     (let input = js_toString ver @ [0x0A] @ join sortedC;
          h = hex_loop (digest (encode input))
      in ''b_'' @ take 16 h)"

text \<open>
  The bundle id as section 3 of the specification words it: the two characters \<open>b_\<close>, then
  the first 16 characters of the digest written in hexadecimal, two digits a byte.
\<close>

definition hex_of_byte :: "byte \<Rightarrow> string" where
  "hex_of_byte x = [hexdigit (unat x div 16), hexdigit (unat x mod 16)]"

definition spec_bundle_id :: "(byte list \<Rightarrow> byte list) \<Rightarrow> utf16 \<Rightarrow> utf16 list \<Rightarrow> string" where
  "spec_bundle_id digest v C =
     ''b_'' @ take 16 (concat (map hex_of_byte (digest (encode (v @ [0x0A] @ join C)))))"

subsection \<open>The platform's digest\<close>

text \<open>
  SHA-256 as FIPS 180-4 defines it, for closed statements about \<open>computeHash\<close>: what
  \<open>crypto.subtle.digest("SHA-256", _)\<close> resolves to. The round constants are the first 32
  bits of the fractional parts of the cube roots of the first 64 primes, the initial hash
  value those of the square roots of the first 8 primes, written in decimal.
\<close>

type_synonym w32 = "32 word"

definition rotr :: "nat \<Rightarrow> w32 \<Rightarrow> w32" where
  "rotr n x = or (drop_bit n x) (push_bit (32 - n) x)"

definition sha_ch :: "w32 \<Rightarrow> w32 \<Rightarrow> w32 \<Rightarrow> w32" where
  "sha_ch x y z = xor (and x y) (and (not x) z)"

definition sha_maj :: "w32 \<Rightarrow> w32 \<Rightarrow> w32 \<Rightarrow> w32" where
  "sha_maj x y z = xor (xor (and x y) (and x z)) (and y z)"

definition bsig0 :: "w32 \<Rightarrow> w32" where
  "bsig0 x = xor (xor (rotr 2 x) (rotr 13 x)) (rotr 22 x)"

definition bsig1 :: "w32 \<Rightarrow> w32" where
  "bsig1 x = xor (xor (rotr 6 x) (rotr 11 x)) (rotr 25 x)"

definition ssig0 :: "w32 \<Rightarrow> w32" where
  "ssig0 x = xor (xor (rotr 7 x) (rotr 18 x)) (drop_bit 3 x)"

definition ssig1 :: "w32 \<Rightarrow> w32" where
  "ssig1 x = xor (xor (rotr 17 x) (rotr 19 x)) (drop_bit 10 x)"

definition K256 :: "w32 list" where
  "K256 =
    [1116352408, 1899447441, 3049323471, 3921009573, 961987163, 1508970993, 2453635748, 2870763221,
     3624381080, 310598401, 607225278, 1426881987, 1925078388, 2162078206, 2614888103, 3248222580,
     3835390401, 4022224774, 264347078, 604807628, 770255983, 1249150122, 1555081692, 1996064986,
     2554220882, 2821834349, 2952996808, 3210313671, 3336571891, 3584528711, 113926993, 338241895,
     666307205, 773529912, 1294757372, 1396182291, 1695183700, 1986661051, 2177026350, 2456956037,
     2730485921, 2820302411, 3259730800, 3345764771, 3516065817, 3600352804, 4094571909, 275423344,
     430227734, 506948616, 659060556, 883997877, 958139571, 1322822218, 1537002063, 1747873779,
     1955562222, 2024104815, 2227730452, 2361852424, 2428436474, 2756734187, 3204031479, 3329325298]"

definition H256 :: "w32 list" where
  "H256 =
    [1779033703, 3144134277, 1013904242, 2773480762, 1359893119, 2600822924, 528734635, 1541459225]"

definition length_bytes :: "nat \<Rightarrow> byte list" where
  "length_bytes n = map (\<lambda>i. ucast (drop_bit (8 * i) (of_nat n :: 64 word))) [7, 6, 5, 4, 3, 2, 1, 0]"

definition sha_pad :: "byte list \<Rightarrow> byte list" where
  "sha_pad m =
     m @ [0x80] @ replicate ((64 - (length m + 9) mod 64) mod 64) 0 @ length_bytes (8 * length m)"

fun be_words :: "byte list \<Rightarrow> w32 list" where
  "be_words (a # b # c # d # r) =
     (push_bit 24 (ucast a) + push_bit 16 (ucast b) + push_bit 8 (ucast c) + ucast d) # be_words r"
| "be_words r = []"

fun schedule :: "nat \<Rightarrow> w32 list \<Rightarrow> w32 list" where
  "schedule 0 w = w"
| "schedule (Suc n) w =
     (let t = length w
      in schedule n (w @ [ssig1 (w ! (t - 2)) + w ! (t - 7) + ssig0 (w ! (t - 15)) + w ! (t - 16)]))"

fun sha_round :: "w32 list \<Rightarrow> w32 \<times> w32 \<Rightarrow> w32 list" where
  "sha_round [a, b, c, d, e, f, g, h] (k, w) =
     (let t1 = h + bsig1 e + sha_ch e f g + k + w;
          t2 = bsig0 a + sha_maj a b c
      in [t1 + t2, a, b, c, d + t1, e, f, g])"
| "sha_round v kw = v"

definition compress :: "w32 list \<Rightarrow> byte list \<Rightarrow> w32 list" where
  "compress h blk = map2 (+) h (foldl sha_round h (zip K256 (schedule 48 (be_words blk))))"

function blocks :: "byte list \<Rightarrow> byte list list" where
  "blocks m = (if length m < 64 then [] else take 64 m # blocks (drop 64 m))"
  by pat_completeness auto
termination
  by (relation "measure length") auto

declare blocks.simps [simp del]

definition word_bytes :: "w32 \<Rightarrow> byte list" where
  "word_bytes x = [ucast (drop_bit 24 x), ucast (drop_bit 16 x), ucast (drop_bit 8 x), ucast x]"

definition sha256 :: "byte list \<Rightarrow> byte list" where
  "sha256 m = concat (map word_bytes (foldl compress H256 (blocks (sha_pad m))))"

subsection \<open>The page: closure variables, storage, document, pending promises\<close>

type_synonym node = nat

text \<open>What \<open>onload\<close> and \<open>onerror\<close> of a link element are set to.\<close>

datatype handler = NoHandler | CallUncloak | Optimistic

datatype element =
    Style string string
  | Link string string handler

text \<open>The calls of \<open>fetch\<close>, in the order they are made.\<close>

datatype request = GetVersion | PostCompile "utf16 list"

text \<open>
  A pending promise together with what its continuation closes over: the \<open>fetch\<close> of
  \<open>/v\<close> in \<open>fetchVersion\<close>, the digest in \<open>computeHash\<close>, the \<open>fetch\<close> of \<open>/compile\<close> in
  \<open>doLoad\<close> and the one in \<open>preload\<close>.
\<close>

datatype task =
    AwaitVersion "utf16 list"
  | AwaitHash jsval "utf16 list"
  | AwaitCompile "utf16 list"
  | AwaitPreload

text \<open>
  \<open>elems\<close> holds every element the script created, a node is its index there;
  \<open>attached\<close> lists the nodes that have a parent, \<open>pendingLoads\<close> the link elements
  whose resource the browser is still fetching. \<open>ssAvail\<close> and \<open>lsAvail\<close> say whether
  access to the storage area succeeds or throws (the helpers swallow the exception).
\<close>

record page =
  api :: string
  pageKey :: string
  ssAvail :: bool
  lsAvail :: bool
  sessionStorage :: "string \<rightharpoonup> string"
  localStorage :: "string \<rightharpoonup> string"
  elems :: "element list"
  attached :: "node list"
  pendingLoads :: "node list"
  cloakTimer :: bool
  uncloaked :: bool
  optimisticId :: "string option"
  optimisticEl :: "node option"
  optimisticLoaded :: bool
  active :: "node option"
  versionToken :: jsval
  currentId :: "string option"
  ready :: bool
  loading :: bool
  needsRescan :: bool
  tasks :: "task list"
  net :: "request list"

text \<open>A string or \<open>null\<close> in a condition: \<open>null\<close> and the empty string are falsy.\<close>

definition truthy :: "string option \<Rightarrow> bool" where
  "truthy v = (case v of None \<Rightarrow> False | Some x \<Rightarrow> x \<noteq> [])"

subsection \<open>Storage helpers (lines 51-79)\<close>

definition ssGet :: "page \<Rightarrow> string \<Rightarrow> string option" where
  "ssGet s k = (if ssAvail s then sessionStorage s k else None)"

definition ssSet :: "page \<Rightarrow> string \<Rightarrow> string \<Rightarrow> page" where
  "ssSet s k v = (if ssAvail s then s\<lparr>sessionStorage := (sessionStorage s)(k \<mapsto> v)\<rparr> else s)"

definition ssDel :: "page \<Rightarrow> string \<Rightarrow> page" where
  "ssDel s k = (if ssAvail s then s\<lparr>sessionStorage := (sessionStorage s)(k := None)\<rparr> else s)"

definition lsGet :: "page \<Rightarrow> string \<Rightarrow> string option" where
  "lsGet s k = (if lsAvail s then localStorage s k else None)"

definition lsSet :: "page \<Rightarrow> string \<Rightarrow> string \<Rightarrow> page" where
  "lsSet s k v = (if lsAvail s then s\<lparr>localStorage := (localStorage s)(k \<mapsto> v)\<rparr> else s)"

subsection \<open>Document operations\<close>

definition createElement :: "page \<Rightarrow> element \<Rightarrow> node \<times> page" where
  "createElement s e = (length (elems s), s\<lparr>elems := elems s @ [e]\<rparr>)"

definition is_link :: "page \<Rightarrow> node \<Rightarrow> bool" where
  "is_link s n = (n < length (elems s) \<and> (case elems s ! n of Link rel href h \<Rightarrow> True | Style i t \<Rightarrow> False))"

text \<open>\<open>appendChild\<close>: the node becomes the last child; a link element starts to load.\<close>

definition appendChild :: "page \<Rightarrow> node \<Rightarrow> page" where
  "appendChild s n =
     s\<lparr>attached := removeAll n (attached s) @ [n],
       pendingLoads := (if is_link s n then pendingLoads s @ [n] else pendingLoads s)\<rparr>"

definition removeChild :: "page \<Rightarrow> node \<Rightarrow> page" where
  "removeChild s n = s\<lparr>attached := removeAll n (attached s)\<rparr>"

subsection \<open>FOUC cloak (lines 87-100)\<close>

text \<open>The cloak is the first element the script creates.\<close>

definition cloak :: node where
  "cloak = 0"

definition uncloak :: "page \<Rightarrow> page" where
  "uncloak s =
     (if uncloaked s then s
      else (let s1 = s\<lparr>uncloaked := True\<rparr>;
                s2 = s1\<lparr>cloakTimer := False\<rparr>
            in if cloak \<in> set (attached s2) then removeChild s2 cloak else s2))"

definition run_cb :: "handler \<Rightarrow> page \<Rightarrow> page" where
  "run_cb cb s = (case cb of CallUncloak \<Rightarrow> uncloak s | NoHandler \<Rightarrow> s | Optimistic \<Rightarrow> s)"

subsection \<open>Script evaluation: cloak and optimistic link (lines 42-132, 187, 212-215)\<close>

text \<open>
  The default of \<open>API\<close> (line 43) and the cloak's style text (line 89). \<open>dataApi\<close> is the
  script tag's \<open>data-api\<close> attribute, \<open>pathname\<close> and \<open>search\<close> are those of \<open>location\<close>.
\<close>

definition default_api :: string where
  "default_api = ''https://api.useweft.dev''"

definition cloak_css :: string where
  "cloak_css = ''body{visibility:hidden!important}''"

definition startup ::
  "string option \<Rightarrow> string \<Rightarrow> string \<Rightarrow> bool \<Rightarrow> bool \<Rightarrow>
     (string \<rightharpoonup> string) \<Rightarrow> (string \<rightharpoonup> string) \<Rightarrow> page" where
  "startup dataApi pathname search ssOk lsOk ssInit lsInit =
     (let s0 = \<lparr>api = (if truthy dataApi then the dataApi else default_api),
                 pageKey = ''weft:p:'' @ pathname @ search,
                 ssAvail = ssOk, lsAvail = lsOk,
                 sessionStorage = ssInit, localStorage = lsInit,
                 elems = [], attached = [], pendingLoads = [],
                 cloakTimer = False, uncloaked = False,
                 optimisticId = None, optimisticEl = None, optimisticLoaded = False,
                 active = None, versionToken = JNull, currentId = None,
                 ready = False, loading = False, needsRescan = False,
                 tasks = [], net = []\<rparr>;
          (c, s1) = createElement s0 (Style ''weft-cloak'' cloak_css);
          s2 = appendChild s1 c;
          s3 = s2\<lparr>cloakTimer := True, uncloaked := False\<rparr>;
          s4 = s3\<lparr>optimisticId := ssGet s3 (pageKey s3), optimisticEl := None,
                   optimisticLoaded := False\<rparr>
      in if truthy (optimisticId s4)
         then (let (el, s5) = createElement s4
                       (Link ''stylesheet'' (api s4 @ ''/css/'' @ the (optimisticId s4)) Optimistic);
                   s6 = s5\<lparr>optimisticEl := Some el\<rparr>
               in appendChild s6 el)
         else s4)"

text \<open>\<open>optimisticEl.onload\<close> and \<open>optimisticEl.onerror\<close> (lines 116-126).\<close>

definition optimistic_onload :: "page \<Rightarrow> page" where
  "optimistic_onload s =
     (let s1 = s\<lparr>optimisticLoaded := True\<rparr>
      in if currentId s1 = optimisticId s1 then uncloak s1 else s1)"

definition optimistic_onerror :: "page \<Rightarrow> page" where
  "optimistic_onerror s =
     ssDel (s\<lparr>optimisticEl := None, optimisticLoaded := False\<rparr>) (pageKey s)"

subsection \<open>CSS injection (lines 132-158)\<close>

text \<open>
  The functions of this part return the states the page goes through, one after each
  statement, the last being the state the function leaves.
\<close>

text \<open>The first and the last statement of \<open>swapActive\<close> (line 150, lines 154-157).\<close>

definition remove_active :: "page \<Rightarrow> page" where
  "remove_active s =
     (case active s of
        Some a \<Rightarrow> if a \<in> set (attached s) then removeChild s a else s
      | None \<Rightarrow> s)"

definition remove_optimistic :: "page \<Rightarrow> node \<Rightarrow> page" where
  "remove_optimistic s el =
     (case optimisticEl s of
        Some oel \<Rightarrow>
          if oel \<noteq> el \<and> oel \<in> set (attached s)
          then (removeChild s oel)\<lparr>optimisticEl := None\<rparr>
          else s
      | None \<Rightarrow> s)"

definition swapActive_steps :: "page \<Rightarrow> node \<Rightarrow> page list" where
  "swapActive_steps s el =
     (let s1 = remove_active s;
          s2 = s1\<lparr>active := Some el\<rparr>;
          s3 = appendChild s2 el;
          s4 = remove_optimistic s3 el
      in [s1, s2, s3, s4])"

definition swapActive :: "page \<Rightarrow> node \<Rightarrow> page" where
  "swapActive s el = last (swapActive_steps s el)"

definition injectLink_steps :: "page \<Rightarrow> string \<Rightarrow> handler \<Rightarrow> page list" where
  "injectLink_steps s url cb =
     (let (el, s1) = createElement s (Link ''stylesheet'' url cb)
      in s1 # swapActive_steps s1 el)"

definition injectLink :: "page \<Rightarrow> string \<Rightarrow> handler \<Rightarrow> page" where
  "injectLink s url cb = last (injectLink_steps s url cb)"

definition injectStyle_steps :: "page \<Rightarrow> string \<Rightarrow> handler \<Rightarrow> page list" where
  "injectStyle_steps s css cb =
     (let (el, s1) = createElement s (Style [] css);
          tr = swapActive_steps s1 el
      in s1 # tr @ [run_cb cb (last tr)])"

definition injectStyle :: "page \<Rightarrow> string \<Rightarrow> handler \<Rightarrow> page" where
  "injectStyle s css cb = last (injectStyle_steps s css cb)"

subsection \<open>Version (lines 187-208)\<close>

text \<open>
  \<open>fetchVersion\<close> issues the request; its two continuations run when the response
  settles: the first with the field \<open>v\<close> of the body, whatever its type, the second when
  the request fails, the response is not ok, or the body is not JSON or is \<open>null\<close>.
  \<open>getVersion\<close> returns the memoised token when it is truthy, and otherwise nothing yet,
  with a request under way.
\<close>

definition fetchVersion :: "page \<Rightarrow> page" where
  "fetchVersion s = s\<lparr>net := net s @ [GetVersion]\<rparr>"

definition fetchVersion_then :: "page \<Rightarrow> jsval \<Rightarrow> jsval \<times> page" where
  "fetchVersion_then s v = (v, s\<lparr>versionToken := v\<rparr>)"

definition fetchVersion_catch :: "page \<Rightarrow> jsval \<times> page" where
  "fetchVersion_catch s =
     (let s1 = s\<lparr>versionToken := JStr (ascii ''unknown'')\<rparr> in (versionToken s1, s1))"

definition getVersion :: "page \<Rightarrow> jsval option \<times> page" where
  "getVersion s =
     (if js_truthy (versionToken s) then (Some (versionToken s), s) else (None, fetchVersion s))"

subsection \<open>Core (lines 212-316)\<close>

text \<open>
  \<open>doLoad\<close> up to its first pending promise: the version request, or with a memoised
  token the digest.
\<close>

definition doLoad :: "page \<Rightarrow> utf16 list \<Rightarrow> page" where
  "doLoad s sortedC =
     (case getVersion s of
        (Some ver, s1) \<Rightarrow> s1\<lparr>tasks := tasks s1 @ [AwaitHash ver sortedC]\<rparr>
      | (None, s1) \<Rightarrow> s1\<lparr>tasks := tasks s1 @ [AwaitVersion sortedC]\<rparr>)"

definition load :: "page \<Rightarrow> utf16 list \<Rightarrow> page" where
  "load s sortedC =
     (if sortedC = [] then (uncloak s)\<lparr>ready := True\<rparr>
      else if loading s then s\<lparr>needsRescan := True\<rparr>
      else doLoad (s\<lparr>loading := True\<rparr>) sortedC)"

text \<open>
  The two continuations \<open>load\<close> chains to \<open>doLoad\<close> (lines 233-244); \<open>els\<close> is what the
  document holds when the continuation runs, for \<open>scan()\<close>.
\<close>

definition load_then :: "page \<Rightarrow> utf16 list list \<Rightarrow> page" where
  "load_then s els =
     (let s1 = s\<lparr>loading := False\<rparr>
      in if needsRescan s1 then load (s1\<lparr>needsRescan := False\<rparr>) (scan els) else s1)"

definition load_catch :: "page \<Rightarrow> page" where
  "load_catch s = uncloak (s\<lparr>loading := False\<rparr>)"

text \<open>The continuation of the digest (lines 250-289), up to the compile request: path 1.\<close>

definition path1 :: "page \<Rightarrow> string \<Rightarrow> page" where
  "path1 s bundleId =
     (let s1 = s\<lparr>currentId := Some bundleId, ready := True\<rparr>;
          s2 = s1\<lparr>active := optimisticEl s1\<rparr>;
          s3 = s2\<lparr>optimisticEl := None\<rparr>;
          s4 = ssSet s3 (pageKey s3) bundleId;
          s5 = lsSet s4 (''weft:'' @ bundleId) ''1''
      in if optimisticLoaded s5 then uncloak s5 else s5)"

text \<open>The four paths of the continuation, tried in this order (lines 253, 267, 276, 285).\<close>

datatype path = OptimisticHit | AlreadyCurrent | KnownBundle | ColdCompile

definition choose_path :: "page \<Rightarrow> string \<Rightarrow> path" where
  "choose_path s bundleId =
     (if Some bundleId = optimisticId s \<and> optimisticEl s \<noteq> None then OptimisticHit
      else if Some bundleId = currentId s then AlreadyCurrent
      else if truthy (lsGet s (''weft:'' @ bundleId)) then KnownBundle
      else ColdCompile)"

text \<open>Path 3 (lines 277-280) and the continuation of the compile response (lines 295-312).\<close>

definition path3_steps :: "page \<Rightarrow> string \<Rightarrow> page list" where
  "path3_steps s bundleId =
     (let s1 = s\<lparr>currentId := Some bundleId, ready := True\<rparr>;
          s2 = ssSet s1 (pageKey s1) bundleId
      in s2 # injectLink_steps s2 (api s2 @ ''/css/'' @ bundleId) CallUncloak)"

definition path3 :: "page \<Rightarrow> string \<Rightarrow> page" where
  "path3 s bundleId = last (path3_steps s bundleId)"

definition path4_then_steps :: "page \<Rightarrow> string \<Rightarrow> string option \<Rightarrow> page list" where
  "path4_then_steps s bundleId css =
     (let s1 = s\<lparr>currentId := Some bundleId, ready := True\<rparr>;
          tr = (if truthy css then injectStyle_steps s1 (the css) CallUncloak
                else injectLink_steps s1 (api s1 @ ''/css/'' @ bundleId) CallUncloak);
          s2 = lsSet (last tr) (''weft:'' @ bundleId) ''1'';
          s3 = ssSet s2 (pageKey s2) bundleId;
          s4 = (if truthy css
                then (let (pf, s') = createElement s3 (Link ''prefetch'' (api s3 @ ''/css/'' @ bundleId) NoHandler)
                      in appendChild s' pf)
                else s3)
      in s1 # tr @ [s3, s4])"

definition path4_then :: "page \<Rightarrow> string \<Rightarrow> string option \<Rightarrow> page" where
  "path4_then s bundleId css = last (path4_then_steps s bundleId css)"

text \<open>
  The continuation of the digest, and that of the compile response, each followed by
  \<open>load\<close>'s continuation once the promise of \<open>doLoad\<close> is fulfilled.
\<close>

definition hashed_steps ::
  "(byte list \<Rightarrow> byte list) \<Rightarrow> page \<Rightarrow> jsval \<Rightarrow> utf16 list \<Rightarrow> utf16 list list \<Rightarrow> page list" where
  "hashed_steps digest s ver sortedC els =
     (let bundleId = computeHash digest ver sortedC
      in case choose_path s bundleId of
           OptimisticHit \<Rightarrow> (let s1 = path1 s bundleId in [s1, load_then s1 els])
         | AlreadyCurrent \<Rightarrow> (let s1 = uncloak (s\<lparr>ready := True\<rparr>) in [s1, load_then s1 els])
         | KnownBundle \<Rightarrow> path3_steps s bundleId @ [load_then (path3 s bundleId) els]
         | ColdCompile \<Rightarrow>
             [s\<lparr>net := net s @ [PostCompile sortedC],
                tasks := tasks s @ [AwaitCompile sortedC]\<rparr>])"

definition compiled_steps ::
  "page \<Rightarrow> string \<Rightarrow> string option \<Rightarrow> utf16 list list \<Rightarrow> page list" where
  "compiled_steps s bundleId css els =
     path4_then_steps s bundleId css @ [load_then (path4_then s bundleId css) els]"

subsection \<open>Public API (lines 343-385, 446-448)\<close>

definition rehash :: "page \<Rightarrow> utf16 list list \<Rightarrow> page" where
  "rehash s els = load s (scan els)"

definition preload :: "page \<Rightarrow> utf16 list \<Rightarrow> utf16 list list \<Rightarrow> page" where
  "preload s classes els =
     (if classes = [] then s
      else (let current = scan els;
                merged = foldl set_key (foldl set_key [] current) classes;
                sortedC = sort merged
            in s\<lparr>net := net s @ [PostCompile sortedC], tasks := tasks s @ [AwaitPreload]\<rparr>))"

definition preload_then :: "page \<Rightarrow> string \<Rightarrow> page" where
  "preload_then s bundleId = lsSet s (''weft:'' @ bundleId) ''1''"

definition status :: "page \<Rightarrow> string option \<times> jsval \<times> bool" where
  "status s = (currentId s, versionToken s, ready s)"

subsection \<open>Events\<close>

text \<open>
  How a pending promise settles: rejected (network error, a response that is not ok,
  a body that is not JSON, no \<open>crypto.subtle\<close>, a token that has no string form), or
  fulfilled with the field \<open>v\<close> of the body of \<open>/v\<close>, with the digest, or with \<open>bundleId\<close>
  and \<open>css\<close> of \<open>/compile\<close>.
\<close>

datatype outcome =
    Rejected
  | Version jsval
  | Digest
  | Compiled string "string option"

text \<open>
  \<open>Rescan\<close> is \<open>load(scan())\<close>, called by \<open>init\<close>, by \<open>rehash()\<close> and by the observer's
  timer; \<open>Settle i r els\<close> settles the \<open>i\<close>-th pending promise with \<open>r\<close> while the document
  holds the class lists \<open>els\<close>.
\<close>

datatype event =
    Rescan "utf16 list list"
  | CloakTimeout
  | LinkLoad node
  | LinkError node
  | Settle nat outcome "utf16 list list"
  | Preload "utf16 list" "utf16 list list"

definition link_event :: "page \<Rightarrow> node \<Rightarrow> bool \<Rightarrow> page list" where
  "link_event s n ok =
     (if n \<in> set (pendingLoads s) \<and> n < length (elems s)
      then (let s1 = s\<lparr>pendingLoads := removeAll n (pendingLoads s)\<rparr>
            in case elems s1 ! n of
                 Link rel href Optimistic \<Rightarrow> [if ok then optimistic_onload s1 else optimistic_onerror s1]
               | Link rel href cb \<Rightarrow> [run_cb cb s1]
               | Style i t \<Rightarrow> [s1])
      else [])"

definition settle ::
  "(byte list \<Rightarrow> byte list) \<Rightarrow> page \<Rightarrow> nat \<Rightarrow> outcome \<Rightarrow> utf16 list list \<Rightarrow> page list" where
  "settle digest s i r els =
     (if i < length (tasks s)
      then (let s1 = s\<lparr>tasks := take i (tasks s) @ drop (Suc i) (tasks s)\<rparr>
            in case (tasks s ! i, r) of
                 (AwaitVersion sortedC, Version v) \<Rightarrow>
                   (let (ver, s2) = fetchVersion_then s1 v
                    in [s2\<lparr>tasks := tasks s2 @ [AwaitHash ver sortedC]\<rparr>])
               | (AwaitVersion sortedC, Rejected) \<Rightarrow>
                   (let (ver, s2) = fetchVersion_catch s1
                    in [s2\<lparr>tasks := tasks s2 @ [AwaitHash ver sortedC]\<rparr>])
               | (AwaitHash ver sortedC, Digest) \<Rightarrow> hashed_steps digest s1 ver sortedC els
               | (AwaitHash ver sortedC, Rejected) \<Rightarrow> [load_catch s1]
               | (AwaitCompile sortedC, Compiled bundleId css) \<Rightarrow> compiled_steps s1 bundleId css els
               | (AwaitCompile sortedC, Rejected) \<Rightarrow> [load_catch s1]
               | (AwaitPreload, Compiled bundleId css) \<Rightarrow> [preload_then s1 bundleId]
               | (AwaitPreload, Rejected) \<Rightarrow> [s1]
               | _ \<Rightarrow> [])
      else [])"

text \<open>The states one event takes the page through; none when the event cannot happen.\<close>

definition step_states :: "(byte list \<Rightarrow> byte list) \<Rightarrow> page \<Rightarrow> event \<Rightarrow> page list" where
  "step_states digest s e =
     (case e of
        Rescan els \<Rightarrow> [rehash s els]
      | CloakTimeout \<Rightarrow> (if cloakTimer s then [uncloak s] else [])
      | LinkLoad n \<Rightarrow> link_event s n True
      | LinkError n \<Rightarrow> link_event s n False
      | Settle i r els \<Rightarrow> settle digest s i r els
      | Preload classes els \<Rightarrow> [preload s classes els])"

definition step :: "(byte list \<Rightarrow> byte list) \<Rightarrow> page \<Rightarrow> event \<Rightarrow> page" where
  "step digest s e = last (s # step_states digest s e)"

fun run_states :: "(byte list \<Rightarrow> byte list) \<Rightarrow> page \<Rightarrow> event list \<Rightarrow> page list" where
  "run_states digest s [] = []"
| "run_states digest s (e # es) =
     step_states digest s e @ run_states digest (step digest s e) es"

text \<open>Every state the page is in from the script's evaluation on, in order.\<close>

definition visited :: "(byte list \<Rightarrow> byte list) \<Rightarrow> page \<Rightarrow> event list \<Rightarrow> page list" where
  "visited digest s es = s # run_states digest s es"

definition run :: "(byte list \<Rightarrow> byte list) \<Rightarrow> page \<Rightarrow> event list \<Rightarrow> page" where
  "run digest s es = foldl (step digest) s es"

section \<open>Invariants\<close>

text \<open>
  What holds of the document in every state the page goes through: the cloak exists, every
  attached or tracked node has been created, the tracked stylesheet nodes are not the
  cloak, and the cloak is attached exactly as long as \<open>uncloaked\<close> is false.
\<close>

definition wf :: "page \<Rightarrow> bool" where
  "wf s \<longleftrightarrow>
     0 < length (elems s)
     \<and> (\<forall>n \<in> set (attached s). n < length (elems s))
     \<and> (\<forall>a. active s = Some a \<longrightarrow> 0 < a \<and> a < length (elems s))
     \<and> (\<forall>a. optimisticEl s = Some a \<longrightarrow> 0 < a \<and> a < length (elems s))
     \<and> (uncloaked s \<longleftrightarrow> cloak \<notin> set (attached s))"

section \<open>Scenarios\<close>

text \<open>
  Page loads used to instantiate the theorems. \<open>first_visit\<close>: no hints, the class \<open>a\<close>,
  version \<open>v1\<close>, and a compile response with inline CSS (the specification's second
  scenario). \<open>stale_guess\<close>: the same with a session hint for another bundle, up to the
  compile request. \<open>known_bundle\<close>: a durable hint for the bundle of the page and no
  session hint, up to the pending digest.
\<close>

definition first_visit :: page where
  "first_visit =
     run sha256 (startup None ''/'' [] True True Map.empty Map.empty)
       [Rescan [[ascii ''a'']], Settle 0 (Version (JStr (ascii ''v1''))) [], Settle 0 Digest [],
        Settle 0 (Compiled ''b_123'' (Some ''.a{}'')) []]"

definition stale_guess :: page where
  "stale_guess =
     run sha256 (startup None ''/'' [] True True [''weft:p:/'' \<mapsto> ''b_123''] Map.empty)
       [Rescan [[ascii ''a'']], Settle 0 (Version (JStr (ascii ''v1''))) [], Settle 0 Digest []]"

definition known_bundle :: page where
  "known_bundle =
     run sha256
       (startup None ''/'' [] True True Map.empty
          [''weft:'' @ computeHash sha256 (JStr (ascii ''v1'')) [ascii ''a''] \<mapsto> ''1''])
       [Rescan [[ascii ''a'']], Settle 0 (Version (JStr (ascii ''v1''))) []]"

section \<open>Resolutions in flight\<close>

text \<open>
  A resolution in flight is a pending promise of \<open>doLoad\<close>: the version request, the digest
  or the compile request; the requests of \<open>preload\<close> are not. \<open>task_classes\<close> is the class
  list the resolution was started with.
\<close>

fun is_resolution :: "task \<Rightarrow> bool" where
  "is_resolution (AwaitVersion sortedC) = True"
| "is_resolution (AwaitHash ver sortedC) = True"
| "is_resolution (AwaitCompile sortedC) = True"
| "is_resolution AwaitPreload = False"

fun task_classes :: "task \<Rightarrow> utf16 list" where
  "task_classes (AwaitVersion sortedC) = sortedC"
| "task_classes (AwaitHash ver sortedC) = sortedC"
| "task_classes (AwaitCompile sortedC) = sortedC"
| "task_classes AwaitPreload = []"

definition resolutions :: "page \<Rightarrow> task list" where
  "resolutions s = filter is_resolution (tasks s)"

text \<open>
  \<open>fulfils digest s i r\<close>: settling the \<open>i\<close>-th pending promise with \<open>r\<close> fulfils the promise
  of \<open>doLoad\<close>, so that the first continuation of \<open>load\<close> runs (line 233).
\<close>

fun fulfils_task :: "(byte list \<Rightarrow> byte list) \<Rightarrow> page \<Rightarrow> task \<Rightarrow> outcome \<Rightarrow> bool" where
  "fulfils_task digest s (AwaitHash ver sortedC) Digest =
     (choose_path s (computeHash digest ver sortedC) \<noteq> ColdCompile)"
| "fulfils_task digest s (AwaitCompile sortedC) (Compiled bundleId css) = True"
| "fulfils_task digest s t r = False"

definition fulfils :: "(byte list \<Rightarrow> byte list) \<Rightarrow> page \<Rightarrow> nat \<Rightarrow> outcome \<Rightarrow> bool" where
  "fulfils digest s i r = (i < length (tasks s) \<and> fulfils_task digest s (tasks s ! i) r)"

text \<open>
  A class sequence is canonical when it is sorted and has no duplicates; \<open>cn\<close>: every
  pending promise was started with a canonical sequence.
\<close>

definition canonical :: "utf16 list \<Rightarrow> bool" where
  "canonical C \<longleftrightarrow> sorted C \<and> distinct C"

definition cn :: "page \<Rightarrow> bool" where
  "cn s \<longleftrightarrow> list_all (\<lambda>t. canonical (task_classes t)) (tasks s)"

text \<open>The version requests made so far, and those still pending.\<close>

fun is_version_wait :: "task \<Rightarrow> bool" where
  "is_version_wait (AwaitVersion sortedC) = True"
| "is_version_wait t = False"

definition version_fetches :: "page \<Rightarrow> nat" where
  "version_fetches s = length (filter (\<lambda>r. r = GetVersion) (net s))"

definition version_waits :: "page \<Rightarrow> nat" where
  "version_waits s = length (filter is_version_wait (tasks s))"


text \<open>
  Between two events: a resolution is in flight exactly when \<open>loading\<close> is set, and there
  is one at most (\<open>sf\<close>); no call awaits the version while the memoised token is truthy
  (\<open>vm\<close>); and as long as every response of \<open>/v\<close> is truthy, the token is \<open>null\<close> or truthy
  and the version requests made are those pending until it is set, one at most (\<open>vr\<close>).
\<close>

definition sf :: "page \<Rightarrow> bool" where
  "sf s \<longleftrightarrow> length (resolutions s) = (if loading s then 1 else 0)"



text \<open>
  What an event does to the version resolver: nothing (\<open>version_kept\<close>), a call of
  \<open>getVersion\<close> that finds no truthy token and issues a request (\<open>version_started\<close>), or a
  pending request settled (\<open>version_settled\<close>).
\<close>

definition version_kept :: "page \<Rightarrow> page \<Rightarrow> bool" where
  "version_kept s t \<longleftrightarrow>
     versionToken t = versionToken s \<and> version_fetches t = version_fetches s
     \<and> version_waits t = version_waits s"






text \<open>
  \<open>compiling\<close>: the first visit while the compile request is pending. \<open>queued\<close>: the same
  with a second scan requested while the resolution was in flight.
\<close>

definition compiling :: page where
  "compiling =
     run sha256 (startup None ''/'' [] True True Map.empty Map.empty)
       [Rescan [[ascii ''a'']], Settle 0 (Version (JStr (ascii ''v1''))) [], Settle 0 Digest []]"

definition queued :: page where
  "queued =
     run sha256 (startup None ''/'' [] True True Map.empty Map.empty)
       [Rescan [[ascii ''a'']], Rescan [[ascii ''a''], [ascii ''b'']], Settle 0 (Version (JStr (ascii ''v1''))) [],
        Settle 0 Digest []]"

section \<open>Properties\<close>

subsection \<open>The bundle id\<close>

lemma toString16_small: "n < 16 \<Longrightarrow> toString16 n = [hexdigit n]"
  by (simp add: toString16.simps)

lemma toString16_two: "16 \<le> n \<Longrightarrow> n < 256 \<Longrightarrow> toString16 n = [hexdigit (n div 16), hexdigit (n mod 16)]"
proof -
  assume a: "16 \<le> n" and b: "n < 256"
  from b have "n div 16 < 16" by simp
  with a show ?thesis
    by (subst toString16.simps) (simp add: toString16_small)
qed

lemma hex_step: "(if unat x < 16 then ''0'' else '''') @ toString16 (unat x) = hex_of_byte (x :: byte)"
proof (cases "unat x < 16")
  case True
  then show ?thesis
    by (simp add: toString16_small hex_of_byte_def hexdigit_def)
next
  case False
  have "unat x < 256"
    using unsigned_less [of x] by simp
  with False show ?thesis
    by (simp add: toString16_two hex_of_byte_def)
qed

lemma hex_loop_acc:
  "foldl (\<lambda>h x. h @ (if unat x < 16 then ''0'' else '''') @ toString16 (unat x)) acc b
     = acc @ concat (map hex_of_byte (b :: byte list))"
proof (induction b arbitrary: acc)
  case Nil
  then show ?case by simp
next
  case (Cons x b)
  show ?case
    using hex_step [of x] by (simp add: Cons.IH)
qed

lemma hex_loop_concat: "hex_loop b = concat (map hex_of_byte b)"
  using hex_loop_acc [of "''''" b] by (simp add: hex_loop_def)

text \<open>
  C1: for every version token and class sequence, \<open>computeHash\<close> yields \<open>b_\<close> followed
  by the first 16 hexadecimal characters of the digest of the version token, a newline
  and the comma-joined classes: the same input encoding, digest and truncation as the
  specification's formula. The token enters as the string \<open>ver + "\n"\<close> starts with: a
  token that is a string as it is (\<open>js_toString (JStr v) = v\<close>), any other by its string
  form.
\<close>

theorem computeHash_is_spec_bundle_id:
  "computeHash digest v C = spec_bundle_id digest (js_toString v) C"
  by (simp add: computeHash_def spec_bundle_id_def hex_loop_concat)

subsection \<open>Traces\<close>

lemma step_in_states: "step digest s e \<in> set (s # step_states digest s e)"
  unfolding step_def by (rule last_in_set) simp

lemma run_snoc: "run digest s (es @ [e]) = step digest (run digest s es) e"
  by (simp add: run_def)

lemma run_Cons: "run digest s (e # es) = run digest (step digest s e) es"
  by (simp add: run_def)

lemma visited_invariant:
  assumes init: "P s0"
    and pres: "\<And>s e m. P s \<Longrightarrow> m \<in> set (step_states digest s e) \<Longrightarrow> P m"
  shows "m \<in> set (visited digest s0 es) \<Longrightarrow> P m"
proof -
  have step_P: "P (step digest s e)" if "P s" for s e
    using step_in_states [of digest s e] that pres by auto
  have "P s \<Longrightarrow> m \<in> set (run_states digest s es) \<Longrightarrow> P m" for s
  proof (induction es arbitrary: s)
    case Nil
    then show ?case by simp
  next
    case (Cons e es)
    from Cons.prems(2) consider "m \<in> set (step_states digest s e)"
      | "m \<in> set (run_states digest (step digest s e) es)"
      by auto
    then show ?case
    proof cases
      case 1
      with Cons.prems(1) show ?thesis by (rule pres)
    next
      case 2
      with Cons.IH [OF step_P [OF Cons.prems(1)]] show ?thesis .
    qed
  qed
  with init show "m \<in> set (visited digest s0 es) \<Longrightarrow> P m"
    by (auto simp: visited_def)
qed

lemma run_in_visited: "run digest s es \<in> set (visited digest s es)"
proof (induction es arbitrary: s)
  case Nil
  show ?case by (simp add: run_def visited_def)
next
  case (Cons e es)
  have "set (visited digest (step digest s e) es) \<subseteq> set (visited digest s (e # es))"
    using step_in_states [of digest s e] by (auto simp: visited_def)
  with Cons.IH [of "step digest s e"] show ?case
    by (auto simp: run_Cons)
qed

subsection \<open>The statements as record updates\<close>

lemma uncloak_nf:
  "uncloak s = s\<lparr>attached := (if uncloaked s then attached s else removeAll cloak (attached s)),
                 cloakTimer := (uncloaked s \<and> cloakTimer s), uncloaked := True\<rparr>"
  by (cases "uncloaked s") (simp_all add: uncloak_def Let_def removeChild_def)

lemma ssSet_nf:
  "ssSet s k v = s\<lparr>sessionStorage := (if ssAvail s then (sessionStorage s)(k \<mapsto> v) else sessionStorage s)\<rparr>"
  by (simp add: ssSet_def)

lemma ssDel_nf:
  "ssDel s k = s\<lparr>sessionStorage := (if ssAvail s then (sessionStorage s)(k := None) else sessionStorage s)\<rparr>"
  by (simp add: ssDel_def)

lemma lsSet_nf:
  "lsSet s k v = s\<lparr>localStorage := (if lsAvail s then (localStorage s)(k \<mapsto> v) else localStorage s)\<rparr>"
  by (simp add: lsSet_def)

lemma remove_active_nf:
  "remove_active s =
     s\<lparr>attached := (case active s of Some a \<Rightarrow> removeAll a (attached s) | None \<Rightarrow> attached s)\<rparr>"
  by (simp add: remove_active_def removeChild_def split: option.splits)

lemma remove_optimistic_nf:
  "remove_optimistic s el =
     s\<lparr>attached := (case optimisticEl s of
                      Some oel \<Rightarrow> if oel \<noteq> el then removeAll oel (attached s) else attached s
                    | None \<Rightarrow> attached s),
       optimisticEl := (case optimisticEl s of
                      Some oel \<Rightarrow> if oel \<noteq> el \<and> oel \<in> set (attached s) then None else Some oel
                    | None \<Rightarrow> None)\<rparr>"
  by (simp add: remove_optimistic_def removeChild_def split: option.splits)

lemma doLoad_nf:
  "doLoad s sortedC =
     s\<lparr>tasks := tasks s @ [if js_truthy (versionToken s) then AwaitHash (versionToken s) sortedC
                           else AwaitVersion sortedC],
       net := (if js_truthy (versionToken s) then net s else net s @ [GetVersion])\<rparr>"
  by (simp add: doLoad_def getVersion_def fetchVersion_def)

lemmas nf = uncloak_nf ssSet_nf ssDel_nf lsSet_nf remove_active_nf remove_optimistic_nf doLoad_nf

subsection \<open>Well-formed pages\<close>

lemma wf_upd [simp]:
  "wf (s\<lparr>currentId := a\<rparr>) = wf s"
  "wf (s\<lparr>ready := b\<rparr>) = wf s"
  "wf (s\<lparr>loading := b\<rparr>) = wf s"
  "wf (s\<lparr>needsRescan := b\<rparr>) = wf s"
  "wf (s\<lparr>tasks := t\<rparr>) = wf s"
  "wf (s\<lparr>net := r\<rparr>) = wf s"
  "wf (s\<lparr>versionToken := v\<rparr>) = wf s"
  "wf (s\<lparr>pendingLoads := p\<rparr>) = wf s"
  "wf (s\<lparr>optimisticLoaded := b\<rparr>) = wf s"
  "wf (s\<lparr>cloakTimer := b\<rparr>) = wf s"
  "wf (s\<lparr>sessionStorage := m\<rparr>) = wf s"
  "wf (s\<lparr>localStorage := m\<rparr>) = wf s"
  by (simp_all add: wf_def)

lemma wf_startup: "wf (startup a p q so lo ss ls)"
  by (simp add: wf_def startup_def createElement_def appendChild_def Let_def cloak_def is_link_def)

lemma wf_uncloak: "wf s \<Longrightarrow> wf (uncloak s)"
  by (auto simp: wf_def uncloak_nf)

lemma wf_storage [simp]:
  "wf (ssSet s k v) = wf s" "wf (lsSet s k v) = wf s" "wf (ssDel s k) = wf s"
  by (simp_all add: nf)

lemma wf_remove_active: "wf s \<Longrightarrow> wf (remove_active s)"
  by (auto simp: wf_def remove_active_nf cloak_def split: option.splits)

lemma wf_set_active: "wf s \<Longrightarrow> 0 < el \<Longrightarrow> el < length (elems s) \<Longrightarrow> wf (s\<lparr>active := Some el\<rparr>)"
  by (simp add: wf_def)

lemma wf_appendChild: "wf s \<Longrightarrow> 0 < el \<Longrightarrow> el < length (elems s) \<Longrightarrow> wf (appendChild s el)"
  by (auto simp: wf_def appendChild_def cloak_def)

lemma wf_remove_optimistic: "wf s \<Longrightarrow> wf (remove_optimistic s el)"
  by (auto simp: wf_def remove_optimistic_nf cloak_def split: option.splits)

lemma elems_remove_active [simp]: "elems (remove_active s) = elems s"
  by (simp add: remove_active_nf)

lemma elems_appendChild [simp]: "elems (appendChild s n) = elems s"
  by (simp add: appendChild_def)

lemma wf_swapActive:
  "wf s \<Longrightarrow> 0 < el \<Longrightarrow> el < length (elems s) \<Longrightarrow> m \<in> set (swapActive_steps s el) \<Longrightarrow> wf m"
  by (auto simp: swapActive_steps_def Let_def
      intro!: wf_remove_active wf_set_active wf_appendChild wf_remove_optimistic)

lemma wf_created: "wf s \<Longrightarrow> wf (s\<lparr>elems := elems s @ [e]\<rparr>)"
  by (auto simp: wf_def)

lemma wf_injectLink:
  assumes w: "wf s" and m: "m \<in> set (injectLink_steps s url cb)"
  shows "wf m"
proof -
  let ?s1 = "s\<lparr>elems := elems s @ [Link ''stylesheet'' url cb]\<rparr>"
  have w1: "wf ?s1" by (rule wf_created [OF w])
  have pos: "0 < length (elems s)" using w by (simp add: wf_def)
  have lt: "length (elems s) < length (elems ?s1)" by simp
  from m consider "m = ?s1" | "m \<in> set (swapActive_steps ?s1 (length (elems s)))"
    by (auto simp: injectLink_steps_def createElement_def)
  then show ?thesis
  proof cases
    case 1
    with w1 show ?thesis by simp
  next
    case 2
    from wf_swapActive [OF w1 pos lt 2] show ?thesis .
  qed
qed

lemma swapActive_steps_nonempty [simp]: "swapActive_steps s el \<noteq> []"
  by (simp add: swapActive_steps_def Let_def)

lemma last_swapActive_steps: "last (swapActive_steps s el) = swapActive s el"
  by (simp add: swapActive_def)

lemma wf_run_cb: "wf s \<Longrightarrow> wf (run_cb cb s)"
  by (cases cb) (simp_all add: run_cb_def wf_uncloak)

lemma wf_injectStyle:
  assumes w: "wf s" and m: "m \<in> set (injectStyle_steps s css cb)"
  shows "wf m"
proof -
  let ?s1 = "s\<lparr>elems := elems s @ [Style [] css]\<rparr>"
  let ?tr = "swapActive_steps ?s1 (length (elems s))"
  have w1: "wf ?s1" by (rule wf_created [OF w])
  have pos: "0 < length (elems s)" using w by (simp add: wf_def)
  have lt: "length (elems s) < length (elems ?s1)" by simp
  have sw: "wf x" if "x \<in> set ?tr" for x
    using wf_swapActive [OF w1 pos lt that] .
  have "last ?tr \<in> set ?tr" by simp
  then have wl: "wf (run_cb cb (last ?tr))"
    by (intro wf_run_cb sw)
  from m consider "m = ?s1" | "m \<in> set ?tr" | "m = run_cb cb (last ?tr)"
    by (auto simp: injectStyle_steps_def createElement_def Let_def)
  then show ?thesis
    using w1 sw wl by cases simp_all
qed

lemma wf_load: "wf s \<Longrightarrow> wf (load s sortedC)"
  by (simp add: load_def doLoad_nf wf_uncloak)

lemma wf_load_then: "wf s \<Longrightarrow> wf (load_then s els)"
  by (simp add: load_then_def Let_def wf_load)

lemma wf_load_catch: "wf s \<Longrightarrow> wf (load_catch s)"
  by (simp add: load_catch_def wf_uncloak)

lemma wf_promote: "wf s \<Longrightarrow> wf (s\<lparr>active := optimisticEl s, optimisticEl := None\<rparr>)"
  by (simp add: wf_def)

lemma wf_path1: "wf s \<Longrightarrow> wf (path1 s bundleId)"
  by (auto simp: path1_def Let_def nf wf_def)

lemma injectLink_steps_nonempty [simp]: "injectLink_steps s url cb \<noteq> []"
  by (simp add: injectLink_steps_def createElement_def)

lemma injectStyle_steps_nonempty [simp]: "injectStyle_steps s css cb \<noteq> []"
  by (simp add: injectStyle_steps_def createElement_def Let_def)

lemma wf_prefetch:
  assumes w: "wf s"
  shows "wf (appendChild (s\<lparr>elems := elems s @ [e]\<rparr>) (length (elems s)))"
proof -
  have pos: "0 < length (elems s)" using w by (simp add: wf_def)
  show ?thesis
    by (rule wf_appendChild [OF wf_created [OF w] pos]) simp
qed

lemma wf_path3:
  assumes w: "wf s" and m: "m \<in> set (path3_steps s bundleId)"
  shows "wf m"
proof -
  define s2 where "s2 = ssSet (s\<lparr>currentId := Some bundleId, ready := True\<rparr>) (pageKey s) bundleId"
  have w2: "wf s2" using w by (simp add: s2_def)
  have "path3_steps s bundleId = s2 # injectLink_steps s2 (api s2 @ ''/css/'' @ bundleId) CallUncloak"
    by (simp add: path3_steps_def Let_def s2_def)
  with m consider "m = s2" | "m \<in> set (injectLink_steps s2 (api s2 @ ''/css/'' @ bundleId) CallUncloak)"
    by auto
  then show ?thesis
    using w2 wf_injectLink [OF w2] by cases simp_all
qed

lemma path3_steps_nonempty [simp]: "path3_steps s bundleId \<noteq> []"
  by (simp add: path3_steps_def Let_def)

lemma wf_path4_then:
  assumes w: "wf s" and m: "m \<in> set (path4_then_steps s bundleId css)"
  shows "wf m"
proof -
  define s1 where "s1 = s\<lparr>currentId := Some bundleId, ready := True\<rparr>"
  define tr where "tr = (if truthy css then injectStyle_steps s1 (the css) CallUncloak
             else injectLink_steps s1 (api s1 @ ''/css/'' @ bundleId) CallUncloak)"
  define s2 where "s2 = lsSet (last tr) (''weft:'' @ bundleId) ''1''"
  define s3 where "s3 = ssSet s2 (pageKey s2) bundleId"
  define s4 where "s4 = (if truthy css
             then (let (pf, s') = createElement s3 (Link ''prefetch'' (api s3 @ ''/css/'' @ bundleId) NoHandler)
                   in appendChild s' pf)
             else s3)"
  have w1: "wf s1" using w by (simp add: s1_def)
  have tr: "wf x" if "x \<in> set tr" for x
    using that wf_injectLink [OF w1] wf_injectStyle [OF w1] by (auto simp: tr_def split: if_splits)
  have "tr \<noteq> []" by (simp add: tr_def)
  then have "last tr \<in> set tr" by simp
  then have wl: "wf (last tr)" by (rule tr)
  then have w3: "wf s3" by (simp add: s3_def s2_def)
  have w4: "wf s4"
    using wf_prefetch [OF w3] w3 by (simp add: s4_def createElement_def)
  have "path4_then_steps s bundleId css = s1 # tr @ [s3, s4]"
    by (simp add: path4_then_steps_def Let_def s1_def tr_def s2_def s3_def s4_def)
  with m consider "m = s1" | "m \<in> set tr" | "m = s3" | "m = s4"
    by auto
  then show ?thesis
    using w1 tr w3 w4 by cases simp_all
qed

lemma path4_then_steps_nonempty [simp]: "path4_then_steps s bundleId css \<noteq> []"
  by (simp add: path4_then_steps_def Let_def)

lemma wf_hashed:
  assumes w: "wf s" and m: "m \<in> set (hashed_steps digest s ver sortedC els)"
  shows "wf m"
proof -
  let ?b = "computeHash digest ver sortedC"
  have p3: "wf x" if "x \<in> set (path3_steps s ?b)" for x
    using wf_path3 [OF w that] .
  have "path3 s ?b \<in> set (path3_steps s ?b)"
    by (simp add: path3_def)
  then have wl: "wf (load_then (path3 s ?b) els)"
    by (intro wf_load_then p3)
  from m consider "m = path1 s ?b" | "m = load_then (path1 s ?b) els"
    | "m = uncloak (s\<lparr>ready := True\<rparr>)" | "m = load_then (uncloak (s\<lparr>ready := True\<rparr>)) els"
    | "m \<in> set (path3_steps s ?b)" | "m = load_then (path3 s ?b) els"
    | "m = s\<lparr>net := net s @ [PostCompile sortedC], tasks := tasks s @ [AwaitCompile sortedC]\<rparr>"
    by (cases "choose_path s ?b") (auto simp: hashed_steps_def Let_def)
  then show ?thesis
    using w p3 wl by cases (simp_all add: wf_path1 wf_load_then wf_uncloak)
qed

lemma wf_compiled:
  assumes w: "wf s" and m: "m \<in> set (compiled_steps s bundleId css els)"
  shows "wf m"
proof -
  have p4: "wf x" if "x \<in> set (path4_then_steps s bundleId css)" for x
    using wf_path4_then [OF w that] .
  have "path4_then s bundleId css \<in> set (path4_then_steps s bundleId css)"
    by (simp add: path4_then_def)
  then have wl: "wf (load_then (path4_then s bundleId css) els)"
    by (intro wf_load_then p4)
  from m consider "m \<in> set (path4_then_steps s bundleId css)"
    | "m = load_then (path4_then s bundleId css) els"
    by (auto simp: compiled_steps_def)
  then show ?thesis
    using p4 wl by cases simp_all
qed

lemma wf_optimistic_onload: "wf s \<Longrightarrow> wf (optimistic_onload s)"
  by (simp add: optimistic_onload_def Let_def wf_uncloak)

lemma wf_optimistic_onerror: "wf s \<Longrightarrow> wf (optimistic_onerror s)"
  by (simp add: optimistic_onerror_def) (simp add: wf_def)

lemma wf_link_event: "wf s \<Longrightarrow> m \<in> set (link_event s n ok) \<Longrightarrow> wf m"
  by (auto simp: link_event_def Let_def wf_optimistic_onload wf_optimistic_onerror wf_run_cb
      split: if_splits element.splits handler.splits)

lemma wf_settle:
  assumes w: "wf s" and m: "m \<in> set (settle digest s i r els)"
  shows "wf m"
proof -
  let ?s1 = "s\<lparr>tasks := take i (tasks s) @ drop (Suc i) (tasks s)\<rparr>"
  have w1: "wf ?s1" using w by simp
  from m show ?thesis
    using wf_hashed [OF w1] wf_compiled [OF w1] w1
    by (auto simp: settle_def Let_def fetchVersion_then_def fetchVersion_catch_def
        wf_load_catch preload_then_def
        split: if_splits task.splits outcome.splits)
qed

lemma wf_preload: "wf s \<Longrightarrow> wf (preload s classes els)"
  by (simp add: preload_def Let_def)

lemma wf_step_states: "wf s \<Longrightarrow> m \<in> set (step_states digest s e) \<Longrightarrow> wf m"
  by (cases e)
     (auto simp: step_states_def rehash_def wf_load wf_uncloak wf_preload
       dest: wf_link_event wf_settle split: if_splits)

lemma wf_visited: "m \<in> set (visited digest (startup a p q so lo ss ls) es) \<Longrightarrow> wf m"
  by (rule visited_invariant [where P = wf, OF wf_startup wf_step_states])

lemma wf_run: "wf (run digest (startup a p q so lo ss ls) es)"
  by (rule wf_visited [OF run_in_visited])

subsection \<open>The visibility gate\<close>

lemma uncloak_twice: "uncloak (uncloak s) = uncloak s"
  by (simp add: uncloak_def Let_def removeChild_def)

text \<open>
  C6: releasing the gate is idempotent: a second call of \<open>uncloak\<close>, a call once
  \<open>uncloaked\<close> is set, and a call after the cloak timer has fired leave the page as it is.
\<close>

theorem uncloak_idempotent:
  "uncloak (uncloak s) = uncloak s
   \<and> (uncloaked s \<longrightarrow> uncloak s = s)
   \<and> (cloakTimer s \<longrightarrow> uncloak (step digest s CloakTimeout) = step digest s CloakTimeout)"
  by (simp add: uncloak_twice step_def step_states_def) (simp add: uncloak_def)

theorem uncloak_idempotent_witness:
  "uncloaked (uncloak (startup None ''/'' [] True True Map.empty Map.empty))
   \<and> uncloak (uncloak (startup None ''/'' [] True True Map.empty Map.empty))
       = uncloak (startup None ''/'' [] True True Map.empty Map.empty)
   \<and> cloakTimer (startup None ''/'' [] True True Map.empty Map.empty)
   \<and> uncloak (step sha256 (startup None ''/'' [] True True Map.empty Map.empty) CloakTimeout)
       = step sha256 (startup None ''/'' [] True True Map.empty Map.empty) CloakTimeout"
proof -
  let ?s = "startup None ''/'' [] True True Map.empty Map.empty"
  have t: "cloakTimer ?s"
    by (simp add: startup_def createElement_def appendChild_def ssGet_def truthy_def Let_def)
  have u: "uncloaked (uncloak ?s)"
    by (simp add: uncloak_nf)
  from uncloak_idempotent [of "uncloak ?s" sha256] uncloak_idempotent [of ?s sha256] t u
  show ?thesis by simp
qed

subsection \<open>The empty-set shortcut\<close>

text \<open>
  C8: when the scan of the document is empty, \<open>load\<close> releases the gate at once and sets
  \<open>ready\<close>; it starts no digest, makes no request, creates no element and starts no
  stylesheet load.
\<close>

theorem empty_scan_shortcut:
  assumes "s = run digest (startup a p q so lo ss ls) es" and "scan els = []"
  shows "uncloaked (step digest s (Rescan els))
     \<and> cloak \<notin> set (attached (step digest s (Rescan els)))
     \<and> ready (step digest s (Rescan els))
     \<and> tasks (step digest s (Rescan els)) = tasks s
     \<and> net (step digest s (Rescan els)) = net s
     \<and> pendingLoads (step digest s (Rescan els)) = pendingLoads s
     \<and> elems (step digest s (Rescan els)) = elems s"
proof -
  have eq: "step digest s (Rescan els) = (uncloak s)\<lparr>ready := True\<rparr>"
    using assms(2) by (simp add: step_def step_states_def rehash_def load_def)
  have "wf s"
    using assms(1) by (simp add: wf_run)
  then have "wf (uncloak s)"
    by (rule wf_uncloak)
  then have "cloak \<notin> set (attached (uncloak s))"
    by (simp add: wf_def uncloak_nf)
  then show ?thesis
    by (simp add: eq) (simp add: uncloak_nf)
qed

lemma startup_plain:
  "startup None p q True True Map.empty lo =
     \<lparr>api = default_api, pageKey = ''weft:p:'' @ p @ q, ssAvail = True, lsAvail = True,
      sessionStorage = Map.empty, localStorage = lo,
      elems = [Style ''weft-cloak'' cloak_css],
      attached = [0], pendingLoads = [],
      cloakTimer = True, uncloaked = False,
      optimisticId = None, optimisticEl = None, optimisticLoaded = False,
      active = None, versionToken = JNull, currentId = None,
      ready = False, loading = False, needsRescan = False,
      tasks = [], net = []\<rparr>"
  by (simp add: startup_def createElement_def appendChild_def ssGet_def truthy_def is_link_def)

theorem empty_scan_shortcut_witness:
  "scan [[]] = []
   \<and> uncloaked (step sha256 (run sha256 (startup None ''/'' [] True True Map.empty Map.empty) []) (Rescan [[]]))
   \<and> ready (step sha256 (run sha256 (startup None ''/'' [] True True Map.empty Map.empty) []) (Rescan [[]]))
   \<and> net (step sha256 (run sha256 (startup None ''/'' [] True True Map.empty Map.empty) []) (Rescan [[]])) = []
   \<and> tasks (step sha256 (run sha256 (startup None ''/'' [] True True Map.empty Map.empty) []) (Rescan [[]])) = []"
proof -
  have e: "scan [[]] = []"
    by (simp add: scan_def)
  have n: "net (run sha256 (startup None ''/'' [] True True Map.empty Map.empty) []) = []"
       "tasks (run sha256 (startup None ''/'' [] True True Map.empty Map.empty) []) = []"
    by (simp_all add: run_def startup_plain)
  from empty_scan_shortcut [OF refl e, of sha256 None "''/''" "[]" True True Map.empty Map.empty "[]"] e n
  show ?thesis by simp
qed

subsection \<open>Evaluating a run\<close>

lemmas ev =
  run_def step_def step_states_def settle_def hashed_steps_def choose_path_def compiled_steps_def
  path3_steps_def path3_def path4_then_steps_def path4_then_def injectLink_def injectStyle_def
  injectLink_steps_def injectStyle_steps_def swapActive_steps_def load_def load_then_def
  load_catch_def doLoad_def getVersion_def fetchVersion_def fetchVersion_then_def
  fetchVersion_catch_def rehash_def path1_def uncloak_def run_cb_def ssSet_def lsSet_def
  ssGet_def lsGet_def ssDel_def createElement_def appendChild_def removeChild_def
  remove_active_def remove_optimistic_def is_link_def truthy_def cloak_def link_event_def
  optimistic_onload_def optimistic_onerror_def preload_def preload_then_def Let_def
  scan_def set_key_def ascii_def

lemma Let_weak: "a = b \<Longrightarrow> Let a t = Let b t"
  by simp

lemma hex_loop_even: "even (length (take 16 (hex_loop b)))"
proof -
  have "length (concat (map hex_of_byte b)) = 2 * length b"
    by (induction b) (simp_all add: hex_of_byte_def)
  then have "length (take 16 (hex_loop b)) = min 16 (2 * length b)"
    by (simp add: hex_loop_concat min.commute)
  then show ?thesis
    by (simp add: min_def)
qed

lemma computeHash_even: "even (length (computeHash digest v C))"
  using hex_loop_even by (simp add: computeHash_def Let_def)

lemma computeHash_neq_odd [simp]:
  "odd (length x) \<Longrightarrow> computeHash digest v C \<noteq> x"
  "odd (length x) \<Longrightarrow> x \<noteq> computeHash digest v C"
  using computeHash_even [of digest v C] by auto

lemma startup_guess:
  "startup None p q True True [''weft:p:'' @ p @ q \<mapsto> ''b_123''] lo =
     \<lparr>api = default_api, pageKey = ''weft:p:'' @ p @ q, ssAvail = True, lsAvail = True,
      sessionStorage = [''weft:p:'' @ p @ q \<mapsto> ''b_123''], localStorage = lo,
      elems = [Style ''weft-cloak'' cloak_css,
               Link ''stylesheet'' (default_api @ ''/css/b_123'') Optimistic],
      attached = [0, 1], pendingLoads = [1],
      cloakTimer = True, uncloaked = False,
      optimisticId = Some ''b_123'', optimisticEl = Some 1, optimisticLoaded = False,
      active = None, versionToken = JNull, currentId = None,
      ready = False, loading = False, needsRescan = False,
      tasks = [], net = []\<rparr>"
  by (simp add: startup_def createElement_def appendChild_def ssGet_def truthy_def is_link_def)

lemma first_visit_eq:
  "first_visit =
     \<lparr>api = default_api, pageKey = ''weft:p:/'', ssAvail = True, lsAvail = True,
      sessionStorage = [''weft:p:/'' \<mapsto> ''b_123''],
      localStorage = [''weft:b_123'' \<mapsto> ''1''],
      elems = [Style ''weft-cloak'' cloak_css, Style [] ''.a{}'',
               Link ''prefetch'' (default_api @ ''/css/b_123'') NoHandler],
      attached = [1, 2], pendingLoads = [2], cloakTimer = False, uncloaked = True,
      optimisticId = None, optimisticEl = None, optimisticLoaded = False,
      active = Some 1, versionToken = JStr (ascii ''v1''), currentId = Some ''b_123'',
      ready = True, loading = False, needsRescan = False, tasks = [],
      net = [GetVersion, PostCompile [ascii ''a'']]\<rparr>"
  by (simp add: first_visit_def startup_plain ev cong: Let_weak)

lemma stale_guess_eq:
  "stale_guess =
     \<lparr>api = default_api, pageKey = ''weft:p:/'', ssAvail = True, lsAvail = True,
      sessionStorage = [''weft:p:/'' \<mapsto> ''b_123''], localStorage = Map.empty,
      elems = [Style ''weft-cloak'' cloak_css,
               Link ''stylesheet'' (default_api @ ''/css/b_123'') Optimistic],
      attached = [0, 1], pendingLoads = [1],
      cloakTimer = True, uncloaked = False,
      optimisticId = Some ''b_123'', optimisticEl = Some 1, optimisticLoaded = False,
      active = None, versionToken = JStr (ascii ''v1''), currentId = None,
      ready = False, loading = True, needsRescan = False,
      tasks = [AwaitCompile [ascii ''a'']], net = [GetVersion, PostCompile [ascii ''a'']]\<rparr>"
  using startup_guess [of "''/''" "[]" Map.empty]
  by (simp add: stale_guess_def ev cong: Let_weak)

lemma known_bundle_eq:
  "known_bundle =
     \<lparr>api = default_api, pageKey = ''weft:p:/'', ssAvail = True, lsAvail = True,
      sessionStorage = Map.empty,
      localStorage = [''weft:'' @ computeHash sha256 (JStr (ascii ''v1'')) [ascii ''a''] \<mapsto> ''1''],
      elems = [Style ''weft-cloak'' cloak_css],
      attached = [0], pendingLoads = [],
      cloakTimer = True, uncloaked = False,
      optimisticId = None, optimisticEl = None, optimisticLoaded = False,
      active = None, versionToken = JStr (ascii ''v1''), currentId = None,
      ready = False, loading = True, needsRescan = False,
      tasks = [AwaitHash (JStr (ascii ''v1'')) [ascii ''a'']], net = [GetVersion]\<rparr>"
  by (simp add: known_bundle_def startup_plain ev cong: Let_weak)

subsection \<open>The order of a swap\<close>

lemma swapActive_steps_attached:
  "map attached (swapActive_steps s el) =
     (let a1 = (case active s of Some a \<Rightarrow> removeAll a (attached s) | None \<Rightarrow> attached s);
          a3 = removeAll el a1 @ [el]
      in [a1, a1, a3,
          (case optimisticEl s of
             Some oel \<Rightarrow> if oel \<noteq> el then removeAll oel a3 else a3
           | None \<Rightarrow> a3)])"
  by (cases "active s"; cases "optimisticEl s")
     (simp_all add: swapActive_steps_def Let_def nf appendChild_def)

lemma swapActive_steps_active:
  "map active (swapActive_steps s el) = [active s, Some el, Some el, Some el]"
  by (cases "active s"; cases "optimisticEl s")
     (simp_all add: swapActive_steps_def Let_def nf appendChild_def)

lemma swapActive_steps_optimisticEl:
  "map optimisticEl (swapActive_steps s el) =
     [optimisticEl s, optimisticEl s, optimisticEl s,
      (case optimisticEl s of
         Some oel \<Rightarrow> if oel \<noteq> el \<and> oel \<in> set (attached s) \<and> Some oel \<noteq> active s then None else Some oel
       | None \<Rightarrow> None)]"
  by (cases "active s"; cases "optimisticEl s")
     (auto simp: swapActive_steps_def Let_def nf appendChild_def)

lemma nth_map_attached:
  "i < length tr \<Longrightarrow> attached (tr ! i) = map attached tr ! i"
  by simp

text \<open>
  C5, as the code has it: \<open>swapActive\<close> detaches the previously active node first, then
  records and attaches the new node, so the swap goes through a state in which neither of
  the two is attached and through none in which both are. Only the speculative node is
  detached after the new node is attached.
\<close>

theorem swapActive_detach_before_attach:
  "(active s = Some old \<and> old \<in> set (attached s) \<and> el \<notin> set (attached s) \<and> el \<noteq> old \<longrightarrow>
      length (swapActive_steps s el) = 4
      \<and> old \<notin> set (attached (swapActive_steps s el ! 0))
      \<and> el \<notin> set (attached (swapActive_steps s el ! 0))
      \<and> active (swapActive_steps s el ! 1) = Some el
      \<and> el \<notin> set (attached (swapActive_steps s el ! 1))
      \<and> el \<in> set (attached (swapActive_steps s el ! 2))
      \<and> old \<notin> set (attached (swapActive_steps s el ! 2))
      \<and> list_all (\<lambda>m. old \<notin> set (attached m) \<or> el \<notin> set (attached m)) (swapActive_steps s el))
   \<and> (active s = None \<and> optimisticEl s = Some oel \<and> oel \<in> set (attached s) \<and> oel \<noteq> el \<longrightarrow>
      oel \<in> set (attached (swapActive_steps s el ! 2))
      \<and> el \<in> set (attached (swapActive_steps s el ! 2))
      \<and> oel \<notin> set (attached (swapActive_steps s el ! 3))
      \<and> el \<in> set (attached (swapActive_steps s el ! 3))
      \<and> optimisticEl (swapActive_steps s el ! 3) = None)"
proof -
  have len: "length (swapActive_steps s el) = 4"
    by (simp add: swapActive_steps_def Let_def)
  have at: "attached (swapActive_steps s el ! i) = map attached (swapActive_steps s el) ! i"
    if "i < 4" for i
    using that len by simp
  have ac: "active (swapActive_steps s el ! i) = map active (swapActive_steps s el) ! i"
    if "i < 4" for i
    using that len by simp
  have op: "optimisticEl (swapActive_steps s el ! i) = map optimisticEl (swapActive_steps s el) ! i"
    if "i < 4" for i
    using that len by simp
  have all: "list_all P (swapActive_steps s el) = list_all P (map (\<lambda>i. swapActive_steps s el ! i) [0, 1, 2, 3])"
    for P
    using len by (simp add: swapActive_steps_def Let_def)
  show ?thesis
    by (auto simp: len at ac op all swapActive_steps_attached swapActive_steps_active
        swapActive_steps_optimisticEl Let_def split: option.splits)
qed

theorem swapActive_detach_before_attach_witness:
  "active first_visit = Some 1 \<and> 1 \<in> set (attached first_visit) \<and> 3 \<notin> set (attached first_visit)
   \<and> 1 \<notin> set (attached (swapActive_steps first_visit 3 ! 0))
   \<and> 3 \<notin> set (attached (swapActive_steps first_visit 3 ! 0))
   \<and> 3 \<in> set (attached (swapActive_steps first_visit 3 ! 2))
   \<and> active stale_guess = None \<and> optimisticEl stale_guess = Some 1
   \<and> 1 \<in> set (attached stale_guess)
   \<and> 1 \<in> set (attached (swapActive_steps stale_guess 2 ! 2))
   \<and> 2 \<in> set (attached (swapActive_steps stale_guess 2 ! 2))
   \<and> 1 \<notin> set (attached (swapActive_steps stale_guess 2 ! 3))"
proof -
  have a: "active first_visit = Some 1 \<and> 1 \<in> set (attached first_visit)
      \<and> 3 \<notin> set (attached first_visit) \<and> (3::nat) \<noteq> 1"
    by (simp add: first_visit_eq)
  have b: "active stale_guess = None \<and> optimisticEl stale_guess = Some 1
      \<and> 1 \<in> set (attached stale_guess) \<and> (1::nat) \<noteq> 2"
    by (simp add: stale_guess_eq)
  from swapActive_detach_before_attach [of first_visit 1 3 1]
    swapActive_detach_before_attach [of stale_guess 1 2 1] a b
  show ?thesis by simp
qed

theorem swapActive_order_counterexample:
  "active first_visit = Some 1
   \<and> attached first_visit = [1, 2]
   \<and> elems first_visit ! 2 = Link ''prefetch'' (default_api @ ''/css/b_123'') NoHandler
   \<and> map attached (swapActive_steps (snd (createElement first_visit (Style [] ''.b{}''))) 3)
       = [[2], [2], [2, 3], [2, 3]]"
  by (simp add: first_visit_eq swapActive_steps_attached createElement_def Let_def)

subsection \<open>What each statement leaves unchanged\<close>

lemma ssSet_frame [simp]:
  "api (ssSet s k v) = api s"
  "pageKey (ssSet s k v) = pageKey s"
  "ssAvail (ssSet s k v) = ssAvail s"
  "lsAvail (ssSet s k v) = lsAvail s"
  "localStorage (ssSet s k v) = localStorage s"
  "elems (ssSet s k v) = elems s"
  "attached (ssSet s k v) = attached s"
  "pendingLoads (ssSet s k v) = pendingLoads s"
  "cloakTimer (ssSet s k v) = cloakTimer s"
  "uncloaked (ssSet s k v) = uncloaked s"
  "optimisticId (ssSet s k v) = optimisticId s"
  "optimisticEl (ssSet s k v) = optimisticEl s"
  "optimisticLoaded (ssSet s k v) = optimisticLoaded s"
  "active (ssSet s k v) = active s"
  "versionToken (ssSet s k v) = versionToken s"
  "currentId (ssSet s k v) = currentId s"
  "ready (ssSet s k v) = ready s"
  "loading (ssSet s k v) = loading s"
  "needsRescan (ssSet s k v) = needsRescan s"
  "tasks (ssSet s k v) = tasks s"
  "net (ssSet s k v) = net s"
  by (simp_all add: ssSet_nf)

lemma ssDel_frame [simp]:
  "api (ssDel s k) = api s"
  "pageKey (ssDel s k) = pageKey s"
  "ssAvail (ssDel s k) = ssAvail s"
  "lsAvail (ssDel s k) = lsAvail s"
  "localStorage (ssDel s k) = localStorage s"
  "elems (ssDel s k) = elems s"
  "attached (ssDel s k) = attached s"
  "pendingLoads (ssDel s k) = pendingLoads s"
  "cloakTimer (ssDel s k) = cloakTimer s"
  "uncloaked (ssDel s k) = uncloaked s"
  "optimisticId (ssDel s k) = optimisticId s"
  "optimisticEl (ssDel s k) = optimisticEl s"
  "optimisticLoaded (ssDel s k) = optimisticLoaded s"
  "active (ssDel s k) = active s"
  "versionToken (ssDel s k) = versionToken s"
  "currentId (ssDel s k) = currentId s"
  "ready (ssDel s k) = ready s"
  "loading (ssDel s k) = loading s"
  "needsRescan (ssDel s k) = needsRescan s"
  "tasks (ssDel s k) = tasks s"
  "net (ssDel s k) = net s"
  by (simp_all add: ssDel_nf)

lemma lsSet_frame [simp]:
  "api (lsSet s k v) = api s"
  "pageKey (lsSet s k v) = pageKey s"
  "ssAvail (lsSet s k v) = ssAvail s"
  "lsAvail (lsSet s k v) = lsAvail s"
  "sessionStorage (lsSet s k v) = sessionStorage s"
  "elems (lsSet s k v) = elems s"
  "attached (lsSet s k v) = attached s"
  "pendingLoads (lsSet s k v) = pendingLoads s"
  "cloakTimer (lsSet s k v) = cloakTimer s"
  "uncloaked (lsSet s k v) = uncloaked s"
  "optimisticId (lsSet s k v) = optimisticId s"
  "optimisticEl (lsSet s k v) = optimisticEl s"
  "optimisticLoaded (lsSet s k v) = optimisticLoaded s"
  "active (lsSet s k v) = active s"
  "versionToken (lsSet s k v) = versionToken s"
  "currentId (lsSet s k v) = currentId s"
  "ready (lsSet s k v) = ready s"
  "loading (lsSet s k v) = loading s"
  "needsRescan (lsSet s k v) = needsRescan s"
  "tasks (lsSet s k v) = tasks s"
  "net (lsSet s k v) = net s"
  by (simp_all add: lsSet_nf)

lemma uncloak_frame [simp]:
  "api (uncloak s) = api s"
  "pageKey (uncloak s) = pageKey s"
  "ssAvail (uncloak s) = ssAvail s"
  "lsAvail (uncloak s) = lsAvail s"
  "sessionStorage (uncloak s) = sessionStorage s"
  "localStorage (uncloak s) = localStorage s"
  "elems (uncloak s) = elems s"
  "pendingLoads (uncloak s) = pendingLoads s"
  "optimisticId (uncloak s) = optimisticId s"
  "optimisticEl (uncloak s) = optimisticEl s"
  "optimisticLoaded (uncloak s) = optimisticLoaded s"
  "active (uncloak s) = active s"
  "versionToken (uncloak s) = versionToken s"
  "currentId (uncloak s) = currentId s"
  "ready (uncloak s) = ready s"
  "loading (uncloak s) = loading s"
  "needsRescan (uncloak s) = needsRescan s"
  "tasks (uncloak s) = tasks s"
  "net (uncloak s) = net s"
  by (simp_all add: uncloak_nf)

lemma uncloaked_uncloak [simp]: "uncloaked (uncloak s)"
  by (simp add: uncloak_nf)

lemma remove_active_frame [simp]:
  "api (remove_active s) = api s"
  "pageKey (remove_active s) = pageKey s"
  "ssAvail (remove_active s) = ssAvail s"
  "lsAvail (remove_active s) = lsAvail s"
  "sessionStorage (remove_active s) = sessionStorage s"
  "localStorage (remove_active s) = localStorage s"
  "elems (remove_active s) = elems s"
  "pendingLoads (remove_active s) = pendingLoads s"
  "cloakTimer (remove_active s) = cloakTimer s"
  "uncloaked (remove_active s) = uncloaked s"
  "optimisticId (remove_active s) = optimisticId s"
  "optimisticEl (remove_active s) = optimisticEl s"
  "optimisticLoaded (remove_active s) = optimisticLoaded s"
  "active (remove_active s) = active s"
  "versionToken (remove_active s) = versionToken s"
  "currentId (remove_active s) = currentId s"
  "ready (remove_active s) = ready s"
  "loading (remove_active s) = loading s"
  "needsRescan (remove_active s) = needsRescan s"
  "tasks (remove_active s) = tasks s"
  "net (remove_active s) = net s"
  by (simp_all add: remove_active_nf)

lemma remove_optimistic_frame [simp]:
  "api (remove_optimistic s el) = api s"
  "pageKey (remove_optimistic s el) = pageKey s"
  "ssAvail (remove_optimistic s el) = ssAvail s"
  "lsAvail (remove_optimistic s el) = lsAvail s"
  "sessionStorage (remove_optimistic s el) = sessionStorage s"
  "localStorage (remove_optimistic s el) = localStorage s"
  "elems (remove_optimistic s el) = elems s"
  "pendingLoads (remove_optimistic s el) = pendingLoads s"
  "cloakTimer (remove_optimistic s el) = cloakTimer s"
  "uncloaked (remove_optimistic s el) = uncloaked s"
  "optimisticId (remove_optimistic s el) = optimisticId s"
  "optimisticLoaded (remove_optimistic s el) = optimisticLoaded s"
  "active (remove_optimistic s el) = active s"
  "versionToken (remove_optimistic s el) = versionToken s"
  "currentId (remove_optimistic s el) = currentId s"
  "ready (remove_optimistic s el) = ready s"
  "loading (remove_optimistic s el) = loading s"
  "needsRescan (remove_optimistic s el) = needsRescan s"
  "tasks (remove_optimistic s el) = tasks s"
  "net (remove_optimistic s el) = net s"
  by (simp_all add: remove_optimistic_nf)

lemma appendChild_frame [simp]:
  "api (appendChild s n) = api s"
  "pageKey (appendChild s n) = pageKey s"
  "ssAvail (appendChild s n) = ssAvail s"
  "lsAvail (appendChild s n) = lsAvail s"
  "sessionStorage (appendChild s n) = sessionStorage s"
  "localStorage (appendChild s n) = localStorage s"
  "elems (appendChild s n) = elems s"
  "cloakTimer (appendChild s n) = cloakTimer s"
  "uncloaked (appendChild s n) = uncloaked s"
  "optimisticId (appendChild s n) = optimisticId s"
  "optimisticEl (appendChild s n) = optimisticEl s"
  "optimisticLoaded (appendChild s n) = optimisticLoaded s"
  "active (appendChild s n) = active s"
  "versionToken (appendChild s n) = versionToken s"
  "currentId (appendChild s n) = currentId s"
  "ready (appendChild s n) = ready s"
  "loading (appendChild s n) = loading s"
  "needsRescan (appendChild s n) = needsRescan s"
  "tasks (appendChild s n) = tasks s"
  "net (appendChild s n) = net s"
  by (simp_all add: appendChild_def)

lemma swapActive_eq:
  "swapActive s el =
     remove_optimistic (appendChild ((remove_active s)\<lparr>active := Some el\<rparr>) el) el"
  by (simp add: swapActive_def swapActive_steps_def Let_def)

lemma swapActive_frame [simp]:
  "api (swapActive s el) = api s"
  "pageKey (swapActive s el) = pageKey s"
  "ssAvail (swapActive s el) = ssAvail s"
  "lsAvail (swapActive s el) = lsAvail s"
  "sessionStorage (swapActive s el) = sessionStorage s"
  "localStorage (swapActive s el) = localStorage s"
  "elems (swapActive s el) = elems s"
  "cloakTimer (swapActive s el) = cloakTimer s"
  "uncloaked (swapActive s el) = uncloaked s"
  "optimisticId (swapActive s el) = optimisticId s"
  "optimisticLoaded (swapActive s el) = optimisticLoaded s"
  "versionToken (swapActive s el) = versionToken s"
  "currentId (swapActive s el) = currentId s"
  "ready (swapActive s el) = ready s"
  "loading (swapActive s el) = loading s"
  "needsRescan (swapActive s el) = needsRescan s"
  "tasks (swapActive s el) = tasks s"
  "net (swapActive s el) = net s"
  by (simp_all add: swapActive_eq)

lemma active_swapActive [simp]: "active (swapActive s el) = Some el"
  by (simp add: swapActive_eq)

lemma pendingLoads_swapActive [simp]:
  "pendingLoads (swapActive s el) = (if is_link s el then pendingLoads s @ [el] else pendingLoads s)"
  by (simp add: swapActive_eq appendChild_def is_link_def)

lemma attached_swapActive_new [simp]: "el \<in> set (attached (swapActive s el))"
  by (cases "optimisticEl s") (simp_all add: swapActive_eq remove_optimistic_nf appendChild_def)

subsection \<open>Final states of the injection functions\<close>

lemma choose_path_upd [simp]:
  "choose_path (s\<lparr>tasks := t\<rparr>) b = choose_path s b"
  by (simp add: choose_path_def lsGet_def split del: if_split cong: if_cong)

lemma injectLink_eq:
  "injectLink s url cb =
     swapActive (s\<lparr>elems := elems s @ [Link ''stylesheet'' url cb]\<rparr>) (length (elems s))"
  by (simp add: injectLink_def injectLink_steps_def createElement_def swapActive_def)

lemma injectStyle_eq:
  "injectStyle s css cb =
     run_cb cb (swapActive (s\<lparr>elems := elems s @ [Style [] css]\<rparr>) (length (elems s)))"
  by (simp add: injectStyle_def injectStyle_steps_def createElement_def swapActive_def Let_def)

lemma run_cb_frame [simp]:
  "api (run_cb cb s) = api s"
  "pageKey (run_cb cb s) = pageKey s"
  "ssAvail (run_cb cb s) = ssAvail s"
  "lsAvail (run_cb cb s) = lsAvail s"
  "sessionStorage (run_cb cb s) = sessionStorage s"
  "localStorage (run_cb cb s) = localStorage s"
  "elems (run_cb cb s) = elems s"
  "pendingLoads (run_cb cb s) = pendingLoads s"
  "optimisticId (run_cb cb s) = optimisticId s"
  "optimisticEl (run_cb cb s) = optimisticEl s"
  "optimisticLoaded (run_cb cb s) = optimisticLoaded s"
  "active (run_cb cb s) = active s"
  "versionToken (run_cb cb s) = versionToken s"
  "currentId (run_cb cb s) = currentId s"
  "ready (run_cb cb s) = ready s"
  "loading (run_cb cb s) = loading s"
  "needsRescan (run_cb cb s) = needsRescan s"
  "tasks (run_cb cb s) = tasks s"
  "net (run_cb cb s) = net s"
  by (cases cb; simp add: run_cb_def)+

lemma injectLink_frame [simp]:
  "api (injectLink s url cb) = api s"
  "pageKey (injectLink s url cb) = pageKey s"
  "ssAvail (injectLink s url cb) = ssAvail s"
  "lsAvail (injectLink s url cb) = lsAvail s"
  "sessionStorage (injectLink s url cb) = sessionStorage s"
  "localStorage (injectLink s url cb) = localStorage s"
  "cloakTimer (injectLink s url cb) = cloakTimer s"
  "uncloaked (injectLink s url cb) = uncloaked s"
  "optimisticId (injectLink s url cb) = optimisticId s"
  "optimisticLoaded (injectLink s url cb) = optimisticLoaded s"
  "versionToken (injectLink s url cb) = versionToken s"
  "currentId (injectLink s url cb) = currentId s"
  "ready (injectLink s url cb) = ready s"
  "loading (injectLink s url cb) = loading s"
  "needsRescan (injectLink s url cb) = needsRescan s"
  "tasks (injectLink s url cb) = tasks s"
  "net (injectLink s url cb) = net s"
  by (simp_all add: injectLink_eq)

lemma injectStyle_frame [simp]:
  "api (injectStyle s css cb) = api s"
  "pageKey (injectStyle s css cb) = pageKey s"
  "ssAvail (injectStyle s css cb) = ssAvail s"
  "lsAvail (injectStyle s css cb) = lsAvail s"
  "sessionStorage (injectStyle s css cb) = sessionStorage s"
  "localStorage (injectStyle s css cb) = localStorage s"
  "optimisticId (injectStyle s css cb) = optimisticId s"
  "optimisticLoaded (injectStyle s css cb) = optimisticLoaded s"
  "versionToken (injectStyle s css cb) = versionToken s"
  "currentId (injectStyle s css cb) = currentId s"
  "ready (injectStyle s css cb) = ready s"
  "loading (injectStyle s css cb) = loading s"
  "needsRescan (injectStyle s css cb) = needsRescan s"
  "tasks (injectStyle s css cb) = tasks s"
  "net (injectStyle s css cb) = net s"
  by (simp_all add: injectStyle_eq)

lemma path3_eq:
  "path3 s bundleId =
     injectLink (ssSet (s\<lparr>currentId := Some bundleId, ready := True\<rparr>) (pageKey s) bundleId)
       (api s @ ''/css/'' @ bundleId) CallUncloak"
  by (simp add: path3_def path3_steps_def Let_def injectLink_def)

lemma path4_then_eq:
  "path4_then s bundleId css =
     (if truthy css
      then (let s3 = ssSet (lsSet (injectStyle (s\<lparr>currentId := Some bundleId, ready := True\<rparr>)
                                     (the css) CallUncloak)
                              (''weft:'' @ bundleId) ''1'')
                       (pageKey s) bundleId
            in appendChild
                 (s3\<lparr>elems := elems s3 @ [Link ''prefetch'' (api s @ ''/css/'' @ bundleId) NoHandler]\<rparr>)
                 (length (elems s3)))
      else ssSet (lsSet (injectLink (s\<lparr>currentId := Some bundleId, ready := True\<rparr>)
                           (api s @ ''/css/'' @ bundleId) CallUncloak)
                    (''weft:'' @ bundleId) ''1'')
             (pageKey s) bundleId)"
  by (cases "truthy css")
     (simp_all add: path4_then_def path4_then_steps_def Let_def createElement_def
       injectStyle_def [symmetric] injectLink_def [symmetric])

lemma path1_frame [simp]:
  "api (path1 s b) = api s"
  "pageKey (path1 s b) = pageKey s"
  "ssAvail (path1 s b) = ssAvail s"
  "lsAvail (path1 s b) = lsAvail s"
  "elems (path1 s b) = elems s"
  "pendingLoads (path1 s b) = pendingLoads s"
  "optimisticId (path1 s b) = optimisticId s"
  "optimisticLoaded (path1 s b) = optimisticLoaded s"
  "versionToken (path1 s b) = versionToken s"
  "loading (path1 s b) = loading s"
  "needsRescan (path1 s b) = needsRescan s"
  "tasks (path1 s b) = tasks s"
  "net (path1 s b) = net s"
  by (simp_all add: path1_def Let_def)

lemma path3_frame [simp]:
  "api (path3 s b) = api s"
  "pageKey (path3 s b) = pageKey s"
  "ssAvail (path3 s b) = ssAvail s"
  "lsAvail (path3 s b) = lsAvail s"
  "localStorage (path3 s b) = localStorage s"
  "cloakTimer (path3 s b) = cloakTimer s"
  "uncloaked (path3 s b) = uncloaked s"
  "optimisticId (path3 s b) = optimisticId s"
  "optimisticLoaded (path3 s b) = optimisticLoaded s"
  "versionToken (path3 s b) = versionToken s"
  "loading (path3 s b) = loading s"
  "needsRescan (path3 s b) = needsRescan s"
  "tasks (path3 s b) = tasks s"
  "net (path3 s b) = net s"
  by (simp_all add: path3_eq)

lemma path4_then_frame [simp]:
  "api (path4_then s b css) = api s"
  "pageKey (path4_then s b css) = pageKey s"
  "ssAvail (path4_then s b css) = ssAvail s"
  "lsAvail (path4_then s b css) = lsAvail s"
  "optimisticId (path4_then s b css) = optimisticId s"
  "optimisticLoaded (path4_then s b css) = optimisticLoaded s"
  "versionToken (path4_then s b css) = versionToken s"
  "loading (path4_then s b css) = loading s"
  "needsRescan (path4_then s b css) = needsRescan s"
  "tasks (path4_then s b css) = tasks s"
  "net (path4_then s b css) = net s"
  by (simp_all add: path4_then_eq Let_def)

lemma load_catch_frame [simp]:
  "api (load_catch s) = api s"
  "pageKey (load_catch s) = pageKey s"
  "ssAvail (load_catch s) = ssAvail s"
  "lsAvail (load_catch s) = lsAvail s"
  "sessionStorage (load_catch s) = sessionStorage s"
  "localStorage (load_catch s) = localStorage s"
  "elems (load_catch s) = elems s"
  "pendingLoads (load_catch s) = pendingLoads s"
  "optimisticId (load_catch s) = optimisticId s"
  "optimisticEl (load_catch s) = optimisticEl s"
  "optimisticLoaded (load_catch s) = optimisticLoaded s"
  "active (load_catch s) = active s"
  "versionToken (load_catch s) = versionToken s"
  "currentId (load_catch s) = currentId s"
  "ready (load_catch s) = ready s"
  "needsRescan (load_catch s) = needsRescan s"
  "tasks (load_catch s) = tasks s"
  "net (load_catch s) = net s"
  by (simp_all add: load_catch_def)

lemma optimistic_onload_frame [simp]:
  "api (optimistic_onload s) = api s"
  "pageKey (optimistic_onload s) = pageKey s"
  "ssAvail (optimistic_onload s) = ssAvail s"
  "lsAvail (optimistic_onload s) = lsAvail s"
  "sessionStorage (optimistic_onload s) = sessionStorage s"
  "localStorage (optimistic_onload s) = localStorage s"
  "elems (optimistic_onload s) = elems s"
  "pendingLoads (optimistic_onload s) = pendingLoads s"
  "optimisticId (optimistic_onload s) = optimisticId s"
  "optimisticEl (optimistic_onload s) = optimisticEl s"
  "active (optimistic_onload s) = active s"
  "versionToken (optimistic_onload s) = versionToken s"
  "currentId (optimistic_onload s) = currentId s"
  "ready (optimistic_onload s) = ready s"
  "loading (optimistic_onload s) = loading s"
  "needsRescan (optimistic_onload s) = needsRescan s"
  "tasks (optimistic_onload s) = tasks s"
  "net (optimistic_onload s) = net s"
  by (simp_all add: optimistic_onload_def Let_def)

lemma optimistic_onerror_frame [simp]:
  "api (optimistic_onerror s) = api s"
  "pageKey (optimistic_onerror s) = pageKey s"
  "ssAvail (optimistic_onerror s) = ssAvail s"
  "lsAvail (optimistic_onerror s) = lsAvail s"
  "localStorage (optimistic_onerror s) = localStorage s"
  "elems (optimistic_onerror s) = elems s"
  "attached (optimistic_onerror s) = attached s"
  "pendingLoads (optimistic_onerror s) = pendingLoads s"
  "cloakTimer (optimistic_onerror s) = cloakTimer s"
  "uncloaked (optimistic_onerror s) = uncloaked s"
  "optimisticId (optimistic_onerror s) = optimisticId s"
  "active (optimistic_onerror s) = active s"
  "versionToken (optimistic_onerror s) = versionToken s"
  "currentId (optimistic_onerror s) = currentId s"
  "ready (optimistic_onerror s) = ready s"
  "loading (optimistic_onerror s) = loading s"
  "needsRescan (optimistic_onerror s) = needsRescan s"
  "tasks (optimistic_onerror s) = tasks s"
  "net (optimistic_onerror s) = net s"
  by (simp_all add: optimistic_onerror_def)

lemma preload_then_frame [simp]:
  "api (preload_then s b) = api s"
  "pageKey (preload_then s b) = pageKey s"
  "ssAvail (preload_then s b) = ssAvail s"
  "lsAvail (preload_then s b) = lsAvail s"
  "sessionStorage (preload_then s b) = sessionStorage s"
  "elems (preload_then s b) = elems s"
  "attached (preload_then s b) = attached s"
  "pendingLoads (preload_then s b) = pendingLoads s"
  "cloakTimer (preload_then s b) = cloakTimer s"
  "uncloaked (preload_then s b) = uncloaked s"
  "optimisticId (preload_then s b) = optimisticId s"
  "optimisticEl (preload_then s b) = optimisticEl s"
  "optimisticLoaded (preload_then s b) = optimisticLoaded s"
  "active (preload_then s b) = active s"
  "versionToken (preload_then s b) = versionToken s"
  "currentId (preload_then s b) = currentId s"
  "ready (preload_then s b) = ready s"
  "loading (preload_then s b) = loading s"
  "needsRescan (preload_then s b) = needsRescan s"
  "tasks (preload_then s b) = tasks s"
  "net (preload_then s b) = net s"
  by (simp_all add: preload_then_def)

lemma load_frame [simp]:
  "api (load s sortedC) = api s"
  "pageKey (load s sortedC) = pageKey s"
  "ssAvail (load s sortedC) = ssAvail s"
  "lsAvail (load s sortedC) = lsAvail s"
  "sessionStorage (load s sortedC) = sessionStorage s"
  "localStorage (load s sortedC) = localStorage s"
  "elems (load s sortedC) = elems s"
  "pendingLoads (load s sortedC) = pendingLoads s"
  "optimisticId (load s sortedC) = optimisticId s"
  "optimisticEl (load s sortedC) = optimisticEl s"
  "optimisticLoaded (load s sortedC) = optimisticLoaded s"
  "active (load s sortedC) = active s"
  "versionToken (load s sortedC) = versionToken s"
  "currentId (load s sortedC) = currentId s"
  by (simp_all add: load_def doLoad_nf)

lemma load_then_frame [simp]:
  "api (load_then s els) = api s"
  "pageKey (load_then s els) = pageKey s"
  "ssAvail (load_then s els) = ssAvail s"
  "lsAvail (load_then s els) = lsAvail s"
  "sessionStorage (load_then s els) = sessionStorage s"
  "localStorage (load_then s els) = localStorage s"
  "elems (load_then s els) = elems s"
  "pendingLoads (load_then s els) = pendingLoads s"
  "optimisticId (load_then s els) = optimisticId s"
  "optimisticEl (load_then s els) = optimisticEl s"
  "optimisticLoaded (load_then s els) = optimisticLoaded s"
  "active (load_then s els) = active s"
  "versionToken (load_then s els) = versionToken s"
  "currentId (load_then s els) = currentId s"
  by (simp_all add: load_then_def Let_def)

lemma hashed_steps_nonempty [simp]: "hashed_steps digest s ver sortedC els \<noteq> []"
  by (cases "choose_path s (computeHash digest ver sortedC)")
     (simp_all add: hashed_steps_def Let_def)

lemma compiled_steps_nonempty [simp]: "compiled_steps s bundleId css els \<noteq> []"
  by (simp add: compiled_steps_def)

lemma last_hashed_steps:
  "last (hashed_steps digest s ver sortedC els) =
     (let bundleId = computeHash digest ver sortedC
      in case choose_path s bundleId of
           OptimisticHit \<Rightarrow> load_then (path1 s bundleId) els
         | AlreadyCurrent \<Rightarrow> load_then (uncloak (s\<lparr>ready := True\<rparr>)) els
         | KnownBundle \<Rightarrow> load_then (path3 s bundleId) els
         | ColdCompile \<Rightarrow>
             s\<lparr>net := net s @ [PostCompile sortedC], tasks := tasks s @ [AwaitCompile sortedC]\<rparr>)"
  by (cases "choose_path s (computeHash digest ver sortedC)")
     (simp_all add: hashed_steps_def Let_def)

lemma last_compiled_steps:
  "last (compiled_steps s bundleId css els) = load_then (path4_then s bundleId css) els"
  by (simp add: compiled_steps_def)

lemma step_settle_hash:
  assumes "i < length (tasks s)" and "tasks s ! i = AwaitHash ver sortedC"
  shows "step digest s (Settle i Digest els) =
     last (hashed_steps digest (s\<lparr>tasks := take i (tasks s) @ drop (Suc i) (tasks s)\<rparr>) ver sortedC els)"
  using assms by (simp add: step_def step_states_def settle_def)

subsection \<open>The known-durable path\<close>

text \<open>
  C10: on the known-durable path the digest's continuation leaves \<open>ready\<close> set and
  \<open>currentId\<close> updated while the page is still cloaked and the injected link, now the
  active stylesheet, has not finished loading: \<open>status()\<close> reports \<open>ready: true\<close> in
  such a state.
\<close>

theorem known_durable_ready_before_loaded:
  assumes reach: "s = run digest (startup a p q so lo ss ls) es"
    and i: "i < length (tasks s)" and t: "tasks s ! i = AwaitHash ver sortedC"
    and p3: "choose_path s (computeHash digest ver sortedC) = KnownBundle"
    and cloaked: "\<not> uncloaked s" and nr: "\<not> needsRescan s"
  shows "status (step digest s (Settle i Digest els))
           = (Some (computeHash digest ver sortedC), versionToken s, True)
     \<and> \<not> uncloaked (step digest s (Settle i Digest els))
     \<and> cloak \<in> set (attached (step digest s (Settle i Digest els)))
     \<and> active (step digest s (Settle i Digest els)) = Some (length (elems s))
     \<and> length (elems s) \<in> set (attached (step digest s (Settle i Digest els)))
     \<and> length (elems s) \<in> set (pendingLoads (step digest s (Settle i Digest els)))
     \<and> elems (step digest s (Settle i Digest els)) ! length (elems s)
           = Link ''stylesheet'' (api s @ ''/css/'' @ computeHash digest ver sortedC) CallUncloak"
proof -
  define b where "b = computeHash digest ver sortedC"
  define s' where "s' = step digest s (Settle i Digest els)"
  have eq: "s' = (swapActive
                   ((ssSet (s\<lparr>tasks := take i (tasks s) @ drop (Suc i) (tasks s),
                               currentId := Some b, ready := True\<rparr>) (pageKey s) b)
                      \<lparr>elems := elems s @ [Link ''stylesheet'' (api s @ ''/css/'' @ b) CallUncloak]\<rparr>)
                   (length (elems s)))\<lparr>loading := False\<rparr>"
    using p3 nr
    by (simp add: s'_def step_settle_hash [OF i t] last_hashed_steps b_def [symmetric]
        load_then_def Let_def path3_eq injectLink_eq)
  have "s' = run digest (startup a p q so lo ss ls) (es @ [Settle i Digest els])"
    by (simp add: s'_def reach run_snoc)
  then have w: "wf s'"
    by (simp add: wf_run)
  have u: "\<not> uncloaked s'"
    using cloaked by (simp add: eq)
  with w have c: "cloak \<in> set (attached s')"
    by (simp add: wf_def)
  have st: "status s' = (Some b, versionToken s, True)"
    by (simp add: eq status_def)
  have ac: "active s' = Some (length (elems s))"
    by (simp add: eq)
  have at: "length (elems s) \<in> set (attached s')"
    by (simp add: eq)
  have pl: "length (elems s) \<in> set (pendingLoads s')"
    by (simp add: eq is_link_def)
  have el: "elems s' ! length (elems s) = Link ''stylesheet'' (api s @ ''/css/'' @ b) CallUncloak"
    by (simp add: eq)
  from st u c ac at pl el show ?thesis
    by (simp add: s'_def b_def)
qed

theorem known_durable_ready_before_loaded_witness:
  "status (step sha256 known_bundle (Settle 0 Digest [[ascii ''a'']]))
       = (Some (computeHash sha256 (JStr (ascii ''v1'')) [ascii ''a'']), JStr (ascii ''v1''), True)
   \<and> \<not> uncloaked (step sha256 known_bundle (Settle 0 Digest [[ascii ''a'']]))
   \<and> cloak \<in> set (attached (step sha256 known_bundle (Settle 0 Digest [[ascii ''a'']])))
   \<and> active (step sha256 known_bundle (Settle 0 Digest [[ascii ''a'']])) = Some 1
   \<and> 1 \<in> set (pendingLoads (step sha256 known_bundle (Settle 0 Digest [[ascii ''a'']])))
   \<and> elems (step sha256 known_bundle (Settle 0 Digest [[ascii ''a'']])) ! 1
       = Link ''stylesheet'' (default_api @ ''/css/'' @ computeHash sha256 (JStr (ascii ''v1'')) [ascii ''a'']) CallUncloak"
proof -
  have h: "0 < length (tasks known_bundle)"
    "tasks known_bundle ! 0 = AwaitHash (JStr (ascii ''v1'')) [ascii ''a'']"
    "choose_path known_bundle (computeHash sha256 (JStr (ascii ''v1'')) [ascii ''a'']) = KnownBundle"
    "\<not> uncloaked known_bundle" "\<not> needsRescan known_bundle"
    by (simp_all add: known_bundle_eq choose_path_def lsGet_def truthy_def)
  have l: "length (elems known_bundle) = 1" "versionToken known_bundle = JStr (ascii ''v1'')"
    "api known_bundle = default_api"
    by (simp_all add: known_bundle_eq)
  from known_durable_ready_before_loaded [OF known_bundle_def h, of "[[ascii ''a'']]"] l
  show ?thesis by simp
qed

subsection \<open>One event, from state to state\<close>

lemma step_Rescan: "step digest s (Rescan els) = load s (scan els)"
  by (simp add: step_def step_states_def rehash_def)

lemma step_CloakTimeout: "step digest s CloakTimeout = (if cloakTimer s then uncloak s else s)"
  by (simp add: step_def step_states_def)

lemma step_Preload: "step digest s (Preload classes els) = preload s classes els"
  by (simp add: step_def step_states_def)

lemma step_link_cases:
  "step digest s (LinkLoad n) \<in> {s\<lparr>pendingLoads := removeAll n (pendingLoads s)\<rparr>,
      uncloak (s\<lparr>pendingLoads := removeAll n (pendingLoads s)\<rparr>),
      optimistic_onload (s\<lparr>pendingLoads := removeAll n (pendingLoads s)\<rparr>), s}"
  "step digest s (LinkError n) \<in> {s\<lparr>pendingLoads := removeAll n (pendingLoads s)\<rparr>,
      uncloak (s\<lparr>pendingLoads := removeAll n (pendingLoads s)\<rparr>),
      optimistic_onerror (s\<lparr>pendingLoads := removeAll n (pendingLoads s)\<rparr>), s}"
  by (simp_all add: step_def step_states_def link_event_def Let_def run_cb_def
      split: element.splits handler.splits)

lemma step_settle_eq:
  "step digest s (Settle i r els) =
     (if i < length (tasks s)
      then (let s1 = s\<lparr>tasks := take i (tasks s) @ drop (Suc i) (tasks s)\<rparr>
            in case tasks s ! i of
                 AwaitVersion sortedC \<Rightarrow>
                   (case r of
                      Version v \<Rightarrow> s1\<lparr>versionToken := v, tasks := tasks s1 @ [AwaitHash v sortedC]\<rparr>
                    | Rejected \<Rightarrow> s1\<lparr>versionToken := JStr (ascii ''unknown''),
                                     tasks := tasks s1 @ [AwaitHash (JStr (ascii ''unknown'')) sortedC]\<rparr>
                    | Digest \<Rightarrow> s
                    | Compiled b css \<Rightarrow> s)
               | AwaitHash ver sortedC \<Rightarrow>
                   (case r of
                      Digest \<Rightarrow> last (hashed_steps digest s1 ver sortedC els)
                    | Rejected \<Rightarrow> load_catch s1
                    | Version v \<Rightarrow> s
                    | Compiled b css \<Rightarrow> s)
               | AwaitCompile sortedC \<Rightarrow>
                   (case r of
                      Compiled b css \<Rightarrow> load_then (path4_then s1 b css) els
                    | Rejected \<Rightarrow> load_catch s1
                    | Version v \<Rightarrow> s
                    | Digest \<Rightarrow> s)
               | AwaitPreload \<Rightarrow>
                   (case r of
                      Compiled b css \<Rightarrow> preload_then s1 b
                    | Rejected \<Rightarrow> s1
                    | Version v \<Rightarrow> s
                    | Digest \<Rightarrow> s))
      else s)"
  by (simp add: step_def step_states_def settle_def Let_def fetchVersion_then_def
      fetchVersion_catch_def last_compiled_steps split: task.splits outcome.splits)

subsection \<open>Single flight\<close>

lemma filter_remove_nth:
  assumes "i < length xs"
  shows "length (filter P (take i xs @ drop (Suc i) xs))
           = length (filter P xs) - (if P (xs ! i) then 1 else 0)"
proof -
  have "xs = take i xs @ xs ! i # drop (Suc i) xs"
    using assms by (simp add: id_take_nth_drop)
  then have "filter P xs = filter P (take i xs) @ filter P [xs ! i] @ filter P (drop (Suc i) xs)"
    by (metis append_Cons append_Nil filter_append)
  then show ?thesis by simp
qed

lemma resolutions_upd [simp]:
  "resolutions (s\<lparr>loading := b\<rparr>) = resolutions s"
  "resolutions (s\<lparr>needsRescan := b\<rparr>) = resolutions s"
  "resolutions (s\<lparr>ready := b\<rparr>) = resolutions s"
  "resolutions (s\<lparr>versionToken := v\<rparr>) = resolutions s"
  "resolutions (s\<lparr>net := n\<rparr>) = resolutions s"
  "resolutions (s\<lparr>pendingLoads := p\<rparr>) = resolutions s"
  "resolutions (uncloak s) = resolutions s"
  "resolutions (path1 s k) = resolutions s"
  "resolutions (path3 s k) = resolutions s"
  "resolutions (path4_then s k css) = resolutions s"
  "resolutions (load_catch s) = resolutions s"
  "resolutions (optimistic_onload s) = resolutions s"
  "resolutions (optimistic_onerror s) = resolutions s"
  "resolutions (preload_then s k) = resolutions s"
  by (simp_all add: resolutions_def)

lemma resolutions_removed:
  assumes "i < length (tasks s)"
  shows "length (resolutions (s\<lparr>tasks := take i (tasks s) @ drop (Suc i) (tasks s)\<rparr>))
           = length (resolutions s) - (if is_resolution (tasks s ! i) then 1 else 0)"
  using filter_remove_nth [OF assms, of is_resolution] by (simp add: resolutions_def)

lemma resolutions_snoc [simp]:
  "resolutions (s\<lparr>tasks := tasks s @ [t]\<rparr>) = resolutions s @ (if is_resolution t then [t] else [])"
  by (simp add: resolutions_def)

lemma load_tasks:
  "tasks (load s sortedC) =
     (if sortedC = [] \<or> loading s then tasks s
      else tasks s @ [if js_truthy (versionToken s) then AwaitHash (versionToken s) sortedC
                      else AwaitVersion sortedC])"
  by (simp add: load_def doLoad_nf)

lemma load_loading: "loading (load s sortedC) = (sortedC \<noteq> [] \<or> loading s)"
  by (simp add: load_def doLoad_nf)

lemma load_needsRescan:
  "needsRescan (load s sortedC) = (needsRescan s \<or> sortedC \<noteq> [] \<and> loading s)"
  by (simp add: load_def doLoad_nf)


lemma load_resolutions:
  "resolutions (load s sortedC) =
     (if sortedC = [] \<or> loading s then resolutions s
      else resolutions s @ [if js_truthy (versionToken s) then AwaitHash (versionToken s) sortedC
                            else AwaitVersion sortedC])"
  by (simp add: resolutions_def load_tasks)

lemma sf_load: "sf s \<Longrightarrow> sf (load s sortedC)"
  by (simp add: sf_def load_resolutions load_loading)

lemma load_then_eq:
  "load_then s els =
     (if needsRescan s then load (s\<lparr>loading := False, needsRescan := False\<rparr>) (scan els)
      else s\<lparr>loading := False\<rparr>)"
  by (simp add: load_then_def Let_def)

lemma sf_load_then: "resolutions s = [] \<Longrightarrow> sf (load_then s els)"
  by (simp add: sf_def load_then_eq load_resolutions load_loading)

lemma sf_load_catch: "resolutions s = [] \<Longrightarrow> sf (load_catch s)"
  by (simp add: sf_def load_catch_def)

lemma sf_upd [simp]:
  "sf (s\<lparr>pendingLoads := p\<rparr>) = sf s"
  "sf (uncloak s) = sf s"
  "sf (optimistic_onload s) = sf s"
  "sf (optimistic_onerror s) = sf s"
  "sf (preload_then s k) = sf s"
  by (simp_all add: sf_def)

lemma sf_startup: "sf (startup a p q so lo ss ls)"
  by (simp add: sf_def resolutions_def startup_def createElement_def appendChild_def Let_def)

lemma sf_removed_resolution:
  assumes "sf s" and "i < length (tasks s)" and "is_resolution (tasks s ! i)"
  shows "loading s"
    and "resolutions (s\<lparr>tasks := take i (tasks s) @ drop (Suc i) (tasks s)\<rparr>) = []"
proof -
  have "tasks s ! i \<in> set (resolutions s)"
    using assms(2,3) by (simp add: resolutions_def)
  then have pos: "0 < length (resolutions s)"
    by (cases "resolutions s") auto
  with assms(1) show l: "loading s"
    by (simp add: sf_def split: if_splits)
  with assms(1) have "length (resolutions s) = 1"
    by (simp add: sf_def)
  with resolutions_removed [OF assms(2)] assms(3)
  show "resolutions (s\<lparr>tasks := take i (tasks s) @ drop (Suc i) (tasks s)\<rparr>) = []"
    by simp
qed

lemma last_hashed_resolutions:
  assumes "resolutions s = []" and "loading s"
  shows "sf (last (hashed_steps digest s ver sortedC els))"
  using assms
  by (cases "choose_path s (computeHash digest ver sortedC)")
     (simp_all add: last_hashed_steps Let_def sf_load_then, simp add: sf_def resolutions_def)

lemma sf_settle:
  assumes "sf s"
  shows "sf (step digest s (Settle i r els))"
proof (cases "i < length (tasks s)")
  case False
  then show ?thesis using assms by (simp add: step_settle_eq)
next
  case i: True
  define s1 where "s1 = s\<lparr>tasks := take i (tasks s) @ drop (Suc i) (tasks s)\<rparr>"
  show ?thesis
  proof (cases "is_resolution (tasks s ! i)")
    case True
    from sf_removed_resolution [OF assms i True]
    have l: "loading s" and e: "resolutions s1 = []"
      by (simp_all add: s1_def)
    have l1: "loading s1" using l by (simp add: s1_def)
    have a: "sf (s1\<lparr>versionToken := v, tasks := tasks s1 @ [AwaitHash w C]\<rparr>)" for v w C
      using e l1 by (simp add: sf_def resolutions_def)
    have b: "sf (last (hashed_steps digest s1 ver C els))" for ver C
      by (rule last_hashed_resolutions [OF e l1])
    have c: "sf (load_catch s1)"
      by (rule sf_load_catch [OF e])
    have d: "sf (load_then (path4_then s1 b css) els)" for b css
      by (rule sf_load_then) (simp add: e)
    show ?thesis
      using i a b c d True
      by (cases "tasks s ! i"; cases r)
         (simp_all add: step_settle_eq s1_def [symmetric] assms)
  next
    case False
    then have t: "tasks s ! i = AwaitPreload"
      by (cases "tasks s ! i") simp_all
    have "length (resolutions s1) = length (resolutions s)"
      using resolutions_removed [OF i] False by (simp add: s1_def)
    then have "sf s1"
      using assms by (simp add: sf_def s1_def)
    then show ?thesis
      using i t assms
      by (simp add: step_settle_eq s1_def [symmetric] split: outcome.splits)
  qed
qed

lemma sf_step: "sf s \<Longrightarrow> sf (step digest s e)"
proof (cases e)
  case (Rescan els)
  assume "sf s"
  then show ?thesis by (simp add: Rescan step_Rescan sf_load)
next
  case CloakTimeout
  assume "sf s"
  then show ?thesis by (simp add: CloakTimeout step_CloakTimeout)
next
  case (LinkLoad n)
  assume "sf s"
  then show ?thesis using step_link_cases(1) [of digest s n] by (auto simp: LinkLoad)
next
  case (LinkError n)
  assume "sf s"
  then show ?thesis using step_link_cases(2) [of digest s n] by (auto simp: LinkError)
next
  case (Settle i r els)
  assume "sf s"
  then show ?thesis by (simp add: Settle sf_settle)
next
  case (Preload classes els)
  assume "sf s"
  then show ?thesis
    by (auto simp: Preload step_Preload preload_def Let_def sf_def resolutions_def
        split: if_splits)
qed

lemma sf_run: "sf (run digest (startup a p q so lo ss ls) es)"
proof (induction es rule: rev_induct)
  case Nil
  show ?case by (simp add: run_def sf_startup)
next
  case (snoc e es)
  then show ?case by (simp add: run_snoc sf_step)
qed

lemma load_then_rescan:
  assumes "resolutions x = []" and "needsRescan x" and "scan els \<noteq> []"
  shows "\<not> needsRescan (load_then x els) \<and> loading (load_then x els)
           \<and> map task_classes (resolutions (load_then x els)) = [scan els]"
  using assms
  by (simp add: load_then_eq load_resolutions load_loading load_needsRescan)

lemma load_then_empty:
  assumes "resolutions x = []" and "needsRescan x" and "scan els = []"
  shows "\<not> needsRescan (load_then x els) \<and> \<not> loading (load_then x els)
           \<and> resolutions (load_then x els) = []
           \<and> ready (load_then x els) \<and> uncloaked (load_then x els)"
  using assms by (simp add: load_then_eq load_def uncloaked_uncloak)

lemma load_then_idle:
  assumes "resolutions x = []" and "\<not> needsRescan x"
  shows "resolutions (load_then x els) = [] \<and> \<not> loading (load_then x els)"
  using assms by (simp add: load_then_eq)

lemma fulfils_step:
  assumes "fulfils digest s i r"
  shows "\<exists>x. step digest s (Settle i r els) = load_then x els
           \<and> resolutions x = resolutions (s\<lparr>tasks := take i (tasks s) @ drop (Suc i) (tasks s)\<rparr>)
           \<and> needsRescan x = needsRescan s"
proof -
  define s1 where "s1 = s\<lparr>tasks := take i (tasks s) @ drop (Suc i) (tasks s)\<rparr>"
  have i: "i < length (tasks s)" and f: "fulfils_task digest s (tasks s ! i) r"
    using assms by (simp_all add: fulfils_def)
  have n: "needsRescan s1 = needsRescan s"
    by (simp add: s1_def)
  from f consider (hash) ver sortedC where "tasks s ! i = AwaitHash ver sortedC" "r = Digest"
      "choose_path s (computeHash digest ver sortedC) \<noteq> ColdCompile"
    | (comp) sortedC b css where "tasks s ! i = AwaitCompile sortedC" "r = Compiled b css"
    by (cases "tasks s ! i"; cases r) simp_all
  then show ?thesis
  proof cases
    case hash
    have st: "step digest s (Settle i r els) = last (hashed_steps digest s1 ver sortedC els)"
      using i hash by (simp add: step_settle_eq s1_def)
    have cp: "choose_path s1 (computeHash digest ver sortedC) \<noteq> ColdCompile"
      using hash(3) by (simp add: s1_def)
    show ?thesis
      using cp n
      by (cases "choose_path s1 (computeHash digest ver sortedC)")
         (auto simp: st last_hashed_steps Let_def s1_def [symmetric]
           intro: exI [of _ "path1 s1 (computeHash digest ver sortedC)"]
             exI [of _ "uncloak (s1\<lparr>ready := True\<rparr>)"]
             exI [of _ "path3 s1 (computeHash digest ver sortedC)"])
  next
    case comp
    have st: "step digest s (Settle i r els) = load_then (path4_then s1 b css) els"
      using i comp by (simp add: step_settle_eq s1_def)
    show ?thesis
      using n by (auto simp: st s1_def [symmetric] intro: exI [of _ "path4_then s1 b css"])
  qed
qed

text \<open>
  C3, as the code has it. Between two events at most one resolution is in flight, and one
  is exactly when \<open>loading\<close> is set. A scan requested while one is in flight starts no work:
  when it is not empty it sets \<open>needsRescan\<close> and nothing else, when it is empty it takes
  the empty-set shortcut, which \<open>load\<close> tests first. When the resolution in flight is
  fulfilled with \<open>needsRescan\<close> set, the flag is cleared and \<open>load\<close> is called with the
  classes the document holds at that moment: that starts one resolution, with these
  classes, when there are some, and none, by the empty-set shortcut, when there are none.
  With the flag not set none starts.
\<close>

theorem single_flight:
  assumes reach: "s = run digest (startup a p q so lo ss ls) es"
  shows "length (resolutions s) \<le> 1 \<and> (loading s \<longleftrightarrow> resolutions s \<noteq> [])
     \<and> (loading s \<and> scan els \<noteq> [] \<longrightarrow> step digest s (Rescan els) = s\<lparr>needsRescan := True\<rparr>)
     \<and> (loading s \<and> scan els = [] \<longrightarrow> step digest s (Rescan els) = (uncloak s)\<lparr>ready := True\<rparr>)
     \<and> (fulfils digest s i r \<and> needsRescan s \<and> scan els \<noteq> [] \<longrightarrow>
           \<not> needsRescan (step digest s (Settle i r els))
           \<and> loading (step digest s (Settle i r els))
           \<and> map task_classes (resolutions (step digest s (Settle i r els))) = [scan els])
     \<and> (fulfils digest s i r \<and> needsRescan s \<and> scan els = [] \<longrightarrow>
           \<not> needsRescan (step digest s (Settle i r els))
           \<and> \<not> loading (step digest s (Settle i r els))
           \<and> resolutions (step digest s (Settle i r els)) = []
           \<and> ready (step digest s (Settle i r els))
           \<and> uncloaked (step digest s (Settle i r els)))
     \<and> (fulfils digest s i r \<and> \<not> needsRescan s \<longrightarrow>
           resolutions (step digest s (Settle i r els)) = []
           \<and> \<not> loading (step digest s (Settle i r els)))"
proof -
  have sf: "sf s"
    by (simp add: reach sf_run)
  then have one: "length (resolutions s) \<le> 1 \<and> (loading s \<longleftrightarrow> resolutions s \<noteq> [])"
    by (auto simp: sf_def split: if_splits)
  have two: "step digest s (Rescan els) = s\<lparr>needsRescan := True\<rparr>"
    if "loading s" "scan els \<noteq> []"
    using that by (simp add: step_Rescan load_def)
  have two': "step digest s (Rescan els) = (uncloak s)\<lparr>ready := True\<rparr>"
    if "scan els = []"
    using that by (simp add: step_Rescan load_def)
  have removed: "resolutions (s\<lparr>tasks := take i (tasks s) @ drop (Suc i) (tasks s)\<rparr>) = []"
    if "fulfils digest s i r"
  proof -
    have i: "i < length (tasks s)" and f: "fulfils_task digest s (tasks s ! i) r"
      using that by (simp_all add: fulfils_def)
    from f have "is_resolution (tasks s ! i)"
      by (cases "tasks s ! i") simp_all
    from sf_removed_resolution(2) [OF sf i this] show ?thesis .
  qed
  have three: "\<not> needsRescan (step digest s (Settle i r els))
           \<and> loading (step digest s (Settle i r els))
           \<and> map task_classes (resolutions (step digest s (Settle i r els))) = [scan els]"
    if f: "fulfils digest s i r" and n: "needsRescan s" and e: "scan els \<noteq> []"
  proof -
    from fulfils_step [OF f, of els] removed [OF f] n
    obtain x where x: "step digest s (Settle i r els) = load_then x els"
      "resolutions x = []" "needsRescan x"
      by auto
    show ?thesis
      unfolding x(1) by (rule load_then_rescan [OF x(2) x(3) e])
  qed
  have three': "\<not> needsRescan (step digest s (Settle i r els))
           \<and> \<not> loading (step digest s (Settle i r els))
           \<and> resolutions (step digest s (Settle i r els)) = []
           \<and> ready (step digest s (Settle i r els))
           \<and> uncloaked (step digest s (Settle i r els))"
    if f: "fulfils digest s i r" and n: "needsRescan s" and e: "scan els = []"
  proof -
    from fulfils_step [OF f, of els] removed [OF f] n
    obtain x where x: "step digest s (Settle i r els) = load_then x els"
      "resolutions x = []" "needsRescan x"
      by auto
    show ?thesis
      unfolding x(1) by (rule load_then_empty [OF x(2) x(3) e])
  qed
  have four: "resolutions (step digest s (Settle i r els)) = []
           \<and> \<not> loading (step digest s (Settle i r els))"
    if f: "fulfils digest s i r" and n: "\<not> needsRescan s"
  proof -
    from fulfils_step [OF f, of els] removed [OF f] n
    obtain x where x: "step digest s (Settle i r els) = load_then x els"
      "resolutions x = []" "\<not> needsRescan x"
      by auto
    show ?thesis
      unfolding x(1) by (rule load_then_idle [OF x(2) x(3)])
  qed
  from one two two' three three' four show ?thesis
    by blast
qed

lemma compiling_eq:
  "compiling =
     \<lparr>api = default_api, pageKey = ''weft:p:/'', ssAvail = True, lsAvail = True,
      sessionStorage = Map.empty, localStorage = Map.empty,
      elems = [Style ''weft-cloak'' cloak_css],
      attached = [0], pendingLoads = [],
      cloakTimer = True, uncloaked = False,
      optimisticId = None, optimisticEl = None, optimisticLoaded = False,
      active = None, versionToken = JStr (ascii ''v1''), currentId = None,
      ready = False, loading = True, needsRescan = False,
      tasks = [AwaitCompile [ascii ''a'']], net = [GetVersion, PostCompile [ascii ''a'']]\<rparr>"
  by (simp add: compiling_def startup_plain ev cong: Let_weak)

lemma queued_eq:
  "queued =
     \<lparr>api = default_api, pageKey = ''weft:p:/'', ssAvail = True, lsAvail = True,
      sessionStorage = Map.empty, localStorage = Map.empty,
      elems = [Style ''weft-cloak'' cloak_css],
      attached = [0], pendingLoads = [],
      cloakTimer = True, uncloaked = False,
      optimisticId = None, optimisticEl = None, optimisticLoaded = False,
      active = None, versionToken = JStr (ascii ''v1''), currentId = None,
      ready = False, loading = True, needsRescan = True,
      tasks = [AwaitCompile [ascii ''a'']], net = [GetVersion, PostCompile [ascii ''a'']]\<rparr>"
  by (simp add: queued_def startup_plain ev cong: Let_weak)

lemma scan_ab: "scan [[ascii ''a''], [ascii ''b'']] = [ascii ''a'', ascii ''b'']"
  by code_simp

theorem single_flight_witness:
  "loading queued \<and> scan [[ascii ''a''], [ascii ''b'']] \<noteq> [] \<and> scan [[]] = []
   \<and> step sha256 queued (Rescan [[ascii ''a''], [ascii ''b'']]) = queued\<lparr>needsRescan := True\<rparr>
   \<and> step sha256 queued (Rescan [[]]) = (uncloak queued)\<lparr>ready := True\<rparr>
   \<and> fulfils sha256 queued 0 (Compiled ''b_123'' (Some ''.a{}'')) \<and> needsRescan queued
   \<and> \<not> needsRescan
        (step sha256 queued (Settle 0 (Compiled ''b_123'' (Some ''.a{}'')) [[ascii ''a''], [ascii ''b'']]))
   \<and> map task_classes
        (resolutions
          (step sha256 queued (Settle 0 (Compiled ''b_123'' (Some ''.a{}'')) [[ascii ''a''], [ascii ''b'']])))
       = [[ascii ''a'', ascii ''b'']]
   \<and> resolutions (step sha256 queued (Settle 0 (Compiled ''b_123'' (Some ''.a{}'')) [[]])) = []
   \<and> \<not> needsRescan (step sha256 queued (Settle 0 (Compiled ''b_123'' (Some ''.a{}'')) [[]]))
   \<and> fulfils sha256 compiling 0 (Compiled ''b_123'' (Some ''.a{}'')) \<and> \<not> needsRescan compiling
   \<and> resolutions (step sha256 compiling (Settle 0 (Compiled ''b_123'' (Some ''.a{}'')) [[ascii ''a'']])) = []"
proof -
  have h: "loading queued" "needsRescan queued" "scan [[ascii ''a''], [ascii ''b'']] \<noteq> []"
    "fulfils sha256 queued 0 (Compiled ''b_123'' (Some ''.a{}''))"
    by (simp_all add: queued_eq scan_ab fulfils_def)
  have e: "scan [[]] = []"
    by (simp add: scan_def)
  have k: "\<not> needsRescan compiling" "fulfils sha256 compiling 0 (Compiled ''b_123'' (Some ''.a{}''))"
    by (simp_all add: compiling_eq fulfils_def)
  from single_flight [OF queued_def, of "[[ascii ''a''], [ascii ''b'']]" 0 "Compiled ''b_123'' (Some ''.a{}'')"]
    single_flight [OF queued_def, of "[[]]" 0 "Compiled ''b_123'' (Some ''.a{}'')"]
    single_flight [OF compiling_def, of "[[ascii ''a'']]" 0 "Compiled ''b_123'' (Some ''.a{}'')"]
    h k e
  show ?thesis
    by (simp add: scan_ab)
qed

text \<open>
  Where the claim as worded fails: an empty scan requested while a resolution is in flight
  does not set the flag but releases the gate and sets \<open>ready\<close>; when the resolution in
  flight is fulfilled with the flag set and the document holds no class any more, no
  resolution starts; and when the resolution in flight is rejected, the flag stays set and
  no resolution starts.
\<close>

theorem single_flight_counterexample:
  "loading compiling \<and> \<not> uncloaked compiling \<and> \<not> ready compiling
   \<and> \<not> needsRescan (step sha256 compiling (Rescan []))
   \<and> uncloaked (step sha256 compiling (Rescan []))
   \<and> ready (step sha256 compiling (Rescan []))
   \<and> loading queued \<and> needsRescan queued \<and> tasks queued = [AwaitCompile [ascii ''a'']]
   \<and> tasks (step sha256 queued (Settle 0 (Compiled ''b_123'' (Some ''.a{}'')) [])) = []
   \<and> \<not> loading (step sha256 queued (Settle 0 (Compiled ''b_123'' (Some ''.a{}'')) []))
   \<and> needsRescan (step sha256 queued (Settle 0 Rejected [[ascii ''a''], [ascii ''b'']]))
   \<and> \<not> loading (step sha256 queued (Settle 0 Rejected [[ascii ''a''], [ascii ''b'']]))
   \<and> tasks (step sha256 queued (Settle 0 Rejected [[ascii ''a''], [ascii ''b'']])) = []"
  by (simp add: compiling_eq queued_eq step_Rescan step_settle_eq scan_def load_def
      load_catch_def load_then_eq)
subsection \<open>The version resolver\<close>

lemma version_wait_resolution: "is_version_wait t \<Longrightarrow> is_resolution t"
  by (cases t) simp_all

lemma version_waits_le: "version_waits s \<le> length (resolutions s)"
proof -
  have "filter is_version_wait (tasks s) = filter is_version_wait (filter is_resolution (tasks s))"
    by (simp, rule filter_cong) (auto dest: version_wait_resolution)
  moreover have "length (filter is_version_wait (filter is_resolution (tasks s)))
      \<le> length (filter is_resolution (tasks s))"
    by (rule length_filter_le)
  ultimately show ?thesis
    unfolding version_waits_def resolutions_def by (simp only:)
qed

lemma version_waits_idle: "resolutions s = [] \<Longrightarrow> version_waits s = 0"
  using version_waits_le [of s] by simp





lemma version_kept_refl [simp]: "version_kept s s"
  by (simp add: version_kept_def)






















subsection \<open>Canonical class sequence\<close>










lemma cn_snoc: "cn (s\<lparr>tasks := tasks s @ [t]\<rparr>) = (cn s \<and> canonical (task_classes t))"
  by (simp add: cn_def)










end
